theory Spec2Isabelle
  imports Main "HOL-Library.Word" "HOL-Library.Sublist" "HOL-Library.Multiset"
begin

unbundle bit_operations_syntax

section \<open>The program: fiveletterwords.cpp\<close>

text \<open>
  The program reads a word list, keeps the words of length five with five different
  letters, sorts them into thirteen lists by the first of the letters
  \<open>e t a o i n s h r l d u\<close> they contain, joins the lists into one array with
  recorded boundaries, and searches that array for five words with no letter in common.

  Bitmaps are \<open>uint32_t\<close>, modelled as 32-bit words. Sizes and indices are \<open>size_t\<close>
  values, and the sum of line 138 is accumulated in an \<open>int\<close>; none of them exceeds the
  number of words kept, which is at most 201376 (lemma \<open>number_of_words_bound\<close>), so they
  are natural numbers. A shift by a negative amount is undefined behaviour in C++; the
  model makes it an error value, so a run either yields its matches or the shift that
  went wrong.
\<close>

type_synonym u32 = "32 word"

datatype error = Undefined_shift int

definition WORD_LENGTH :: nat where
  "WORD_LENGTH = 5"

subsection \<open>Characters and single-letter bitmaps\<close>

text \<open>
  \<open>c - 'a'\<close> is computed on \<open>int\<close> after promoting the \<open>char\<close>. Plain \<open>char\<close> is taken
  as signed (as on x86-64), so the bytes from 128 on are negative.
\<close>

definition char_int :: "char \<Rightarrow> int" where
  "char_int c = (if (of_char c :: nat) < 128 then int (of_char c) else int (of_char c) - 256)"

definition shift_amount :: "char \<Rightarrow> int" where
  "shift_amount c = char_int c - char_int CHR ''a''"

text \<open>
  \<open>1 << (c - 'a')\<close> on \<open>int\<close>: undefined for a negative amount and from 32 on. A
  signed \<open>char\<close> is below 128 (lemma \<open>char_int_bounds\<close>), so the amount is at most 30
  and the sign bit is never reached.
\<close>

definition shl1 :: "int \<Rightarrow> error + u32" where
  "shl1 s = (if 0 \<le> s \<and> s < 32 then Inr (push_bit (nat s) 1) else Inl (Undefined_shift s))"

text \<open>Lines 87-93: the pivot letters, their bitmaps, and the entry for the last list.\<close>

definition letters :: "char list" where
  "letters = [CHR ''e'', CHR ''t'', CHR ''a'', CHR ''o'', CHR ''i'', CHR ''n'',
              CHR ''s'', CHR ''h'', CHR ''r'', CHR ''l'', CHR ''d'', CHR ''u'']"

definition letter_bit :: "char \<Rightarrow> u32" where
  "letter_bit letter = push_bit (nat (shift_amount letter)) 1"

definition letter_bitmaps :: "u32 list" where
  "letter_bitmaps = map letter_bit letters @ [0xffff]"

subsection \<open>Encoding a word (lines 107-118)\<close>

text \<open>The lambda of \<open>std::accumulate\<close>: \<open>bitmap |= 1 << (c - 'a')\<close>.\<close>

definition set_letter :: "u32 \<Rightarrow> char \<Rightarrow> error + u32" where
  "set_letter bitmap c =
     (case shl1 (shift_amount c) of Inl e \<Rightarrow> Inl e | Inr b \<Rightarrow> Inr (bitmap OR b))"

fun accumulate_bitmap :: "string \<Rightarrow> u32 \<Rightarrow> error + u32" where
  "accumulate_bitmap [] bitmap = Inr bitmap"
| "accumulate_bitmap (c # cs) bitmap =
     (case set_letter bitmap c of Inl e \<Rightarrow> Inl e | Inr b \<Rightarrow> accumulate_bitmap cs b)"

text \<open>\<open>std::popcount\<close>, or \<open>std::bitset<32>::count\<close>: the number of bits set.\<close>

definition bitcount :: "u32 \<Rightarrow> nat" where
  "bitcount w = length (filter (bit w) [0..<32])"

subsection \<open>Sorting the words into the letter lists (lines 94-136)\<close>

record buckets =
  word_bitmaps_letters :: "u32 list list"
  unique_words_letters :: "string list list"

definition empty_buckets :: buckets where
  "empty_buckets =
     \<lparr>word_bitmaps_letters = replicate (length letter_bitmaps) [],
      unique_words_letters = replicate (length letter_bitmaps) []\<rparr>"

text \<open>
  Lines 122-134: the loop over the letter lists, left by \<open>break\<close> at the first list
  whose letter the bitmap contains; the word is pushed there unless its bitmap is present.
\<close>

function place :: "u32 \<Rightarrow> string \<Rightarrow> nat \<Rightarrow> buckets \<Rightarrow> buckets" where
  "place bitmap word i st =
     (if i < length letter_bitmaps then
        (if bitmap AND letter_bitmaps ! i \<noteq> 0 then
           (if bitmap \<notin> set (word_bitmaps_letters st ! i) then
              st\<lparr>word_bitmaps_letters :=
                   (word_bitmaps_letters st)[i := word_bitmaps_letters st ! i @ [bitmap]],
                 unique_words_letters :=
                   (unique_words_letters st)[i := unique_words_letters st ! i @ [word]]\<rparr>
            else st)
         else place bitmap word (Suc i) st)
      else st)"
  by pat_completeness auto
termination
  by (relation "measure (\<lambda>(bitmap, word, i, st). length letter_bitmaps - i)") auto

declare place.simps [simp del]

text \<open>Lines 99-136, the body for one word.\<close>

definition process_word :: "string \<Rightarrow> buckets \<Rightarrow> error + buckets" where
  "process_word word st =
     (if length word \<noteq> WORD_LENGTH then Inr st
      else case accumulate_bitmap word 0 of
             Inl e \<Rightarrow> Inl e
           | Inr bitmap \<Rightarrow>
               if bitcount bitmap = WORD_LENGTH then Inr (place bitmap word 0 st)
               else Inr st)"

fun filter_words :: "string list \<Rightarrow> buckets \<Rightarrow> error + buckets" where
  "filter_words [] st = Inr st"
| "filter_words (word # word_list) st =
     (case process_word word st of
        Inl e \<Rightarrow> Inl e
      | Inr st' \<Rightarrow> filter_words word_list st')"

subsection \<open>Joining the lists (lines 138-165)\<close>

record search_index =
  word_bitmaps :: "u32 list"
  unique_words :: "string list"
  word_bitmaps_boundaries :: "nat list"
  number_of_words :: nat

definition combine_step ::
  "buckets \<Rightarrow> nat \<Rightarrow> u32 list \<times> string list \<times> nat list \<Rightarrow> u32 list \<times> string list \<times> nat list"
where
  "combine_step st i = (\<lambda>(wb, uw, bnd).
     (wb @ word_bitmaps_letters st ! i, uw @ unique_words_letters st ! i, bnd @ [length wb]))"

definition combine :: "buckets \<Rightarrow> search_index" where
  "combine st =
     (case fold (combine_step st) [0..<length (word_bitmaps_letters st)] ([], [], []) of
        (wb, uw, bnd) \<Rightarrow>
          \<lparr>word_bitmaps = wb, unique_words = uw,
           word_bitmaps_boundaries = bnd @ [length wb],
           number_of_words = sum_list (map length (word_bitmaps_letters st))\<rparr>)"

text \<open>Line 165: the last entry is set to 0 before the search.\<close>

definition letter_bitmaps_reset :: "u32 list" where
  "letter_bitmaps_reset = letter_bitmaps[length letter_bitmaps - 1 := 0]"

definition build_index :: "string list \<Rightarrow> error + search_index" where
  "build_index word_list =
     (case filter_words word_list empty_buckets of
        Inl e \<Rightarrow> Inl e
      | Inr st \<Rightarrow> Inr (combine st))"

subsection \<open>The search (lines 171-234)\<close>

text \<open>
  The loops are generic in what line 225 pushes: \<open>emit i j ka kb kc\<close> for the five
  indices into the joined array. The program pushes the five words; pushing the indices
  themselves gives the trace that the properties of a match are stated on. The OpenMP
  pragma distributes the outer iterations over threads; the model runs them in index
  order, and every property below is about the set of matches.
\<close>

text \<open>Lines 196-202: one section of the array, from \<open>lo\<close> to \<open>hi\<close>.\<close>

definition scan_section ::
  "u32 list \<Rightarrow> u32 \<Rightarrow> nat \<Rightarrow> nat \<Rightarrow> u32 list \<times> nat list \<Rightarrow> u32 list \<times> nat list"
where
  "scan_section wb used_ij lo hi =
     fold (\<lambda>k (candidate_bitmaps, candidate_indices).
             if used_ij AND wb ! k = 0
             then (candidate_bitmaps @ [wb ! k], candidate_indices @ [k])
             else (candidate_bitmaps, candidate_indices))
          [lo..<hi]"

text \<open>Lines 188-204: the candidates for a pair, section by section.\<close>

definition find_candidates :: "search_index \<Rightarrow> nat \<Rightarrow> u32 \<Rightarrow> u32 list \<times> nat list" where
  "find_candidates idx j used_ij =
     fold (\<lambda>index cands.
             if letter_bitmaps_reset ! index AND used_ij = 0
             then scan_section (word_bitmaps idx) used_ij
                    (max (j + 1) (word_bitmaps_boundaries idx ! index))
                    (word_bitmaps_boundaries idx ! (index + 1)) cands
             else cands)
          [0..<length (word_bitmaps_boundaries idx) - 1]
          ([], [])"

text \<open>Lines 219-230, 214-231 and 211-232: the three loops over the candidates.\<close>

definition loop_c ::
  "(nat \<Rightarrow> nat \<Rightarrow> nat \<Rightarrow> nat \<Rightarrow> nat \<Rightarrow> 'm) \<Rightarrow> u32 list \<Rightarrow> nat list \<Rightarrow> nat \<Rightarrow> nat \<Rightarrow> nat \<Rightarrow> nat \<Rightarrow> u32
     \<Rightarrow> 'm list \<Rightarrow> 'm list"
where
  "loop_c emit candidate_bitmaps candidate_indices i j a b used_ijkl =
     fold (\<lambda>c matches.
             if used_ijkl AND candidate_bitmaps ! c \<noteq> 0 then matches
             else matches @ [emit i j (candidate_indices ! a) (candidate_indices ! b)
                                  (candidate_indices ! c)])
          [b + 1..<length candidate_bitmaps]"

definition loop_b ::
  "(nat \<Rightarrow> nat \<Rightarrow> nat \<Rightarrow> nat \<Rightarrow> nat \<Rightarrow> 'm) \<Rightarrow> u32 list \<Rightarrow> nat list \<Rightarrow> nat \<Rightarrow> nat \<Rightarrow> nat \<Rightarrow> u32
     \<Rightarrow> 'm list \<Rightarrow> 'm list"
where
  "loop_b emit candidate_bitmaps candidate_indices i j a used_ijk =
     fold (\<lambda>b matches.
             if used_ijk AND candidate_bitmaps ! b \<noteq> 0 then matches
             else loop_c emit candidate_bitmaps candidate_indices i j a b
                    (used_ijk OR candidate_bitmaps ! b) matches)
          [a + 1..<length candidate_bitmaps]"

definition loop_a ::
  "(nat \<Rightarrow> nat \<Rightarrow> nat \<Rightarrow> nat \<Rightarrow> nat \<Rightarrow> 'm) \<Rightarrow> u32 list \<Rightarrow> nat list \<Rightarrow> nat \<Rightarrow> nat \<Rightarrow> u32
     \<Rightarrow> 'm list \<Rightarrow> 'm list"
where
  "loop_a emit candidate_bitmaps candidate_indices i j used_ij =
     fold (\<lambda>a matches.
             loop_b emit candidate_bitmaps candidate_indices i j a
               (used_ij OR candidate_bitmaps ! a) matches)
          [0..<length candidate_bitmaps]"

text \<open>Lines 181-233: the loop over \<open>j\<close>, with the early exit of line 207.\<close>

definition loop_j ::
  "(nat \<Rightarrow> nat \<Rightarrow> nat \<Rightarrow> nat \<Rightarrow> nat \<Rightarrow> 'm) \<Rightarrow> search_index \<Rightarrow> nat \<Rightarrow> 'm list \<Rightarrow> 'm list"
where
  "loop_j emit idx i =
     fold (\<lambda>j matches.
             if word_bitmaps idx ! i AND word_bitmaps idx ! j \<noteq> 0 then matches
             else
               let used_ij = word_bitmaps idx ! i OR word_bitmaps idx ! j in
               case find_candidates idx j used_ij of
                 (candidate_bitmaps, candidate_indices) \<Rightarrow>
                   if length candidate_bitmaps < WORD_LENGTH - 2 then matches
                   else loop_a emit candidate_bitmaps candidate_indices i j used_ij matches)
          [i + 1..<number_of_words idx]"

text \<open>Lines 178-234.\<close>

definition search_loops ::
  "(nat \<Rightarrow> nat \<Rightarrow> nat \<Rightarrow> nat \<Rightarrow> nat \<Rightarrow> 'm) \<Rightarrow> search_index \<Rightarrow> 'm list"
where
  "search_loops emit idx = fold (loop_j emit idx) [0..<number_of_words idx] []"

text \<open>What line 225 pushes: the five words.\<close>

definition match_words :: "string list \<Rightarrow> nat \<Rightarrow> nat \<Rightarrow> nat \<Rightarrow> nat \<Rightarrow> nat \<Rightarrow> string list" where
  "match_words uw i j ka kb kc = [uw ! i, uw ! j, uw ! ka, uw ! kb, uw ! kc]"

definition search :: "search_index \<Rightarrow> string list list" where
  "search idx = search_loops (match_words (unique_words idx)) idx"

text \<open>The trace of the same loops: the five indices behind each match.\<close>

definition index_tuple :: "nat \<Rightarrow> nat \<Rightarrow> nat \<Rightarrow> nat \<Rightarrow> nat \<Rightarrow> nat list" where
  "index_tuple i j ka kb kc = [i, j, ka, kb, kc]"

definition search_indices :: "search_index \<Rightarrow> nat list list" where
  "search_indices idx = search_loops index_tuple idx"

text \<open>The whole run, from the word list to the matches.\<close>

definition run :: "string list \<Rightarrow> error + string list list" where
  "run word_list =
     (case build_index word_list of
        Inl e \<Rightarrow> Inl e
      | Inr idx \<Rightarrow> Inr (search idx))"

section \<open>Definitions for the verification\<close>

subsection \<open>The loop over the letter lists\<close>

text \<open>
  \<open>list_of bitmap\<close> is the index at which the loop of lines 122-134 breaks, if it
  does; \<open>push_word\<close> is the pair of \<open>push_back\<close>s of lines 129-130.
\<close>

definition list_of :: "u32 \<Rightarrow> nat option" where
  "list_of bitmap =
     find (\<lambda>i. bitmap AND letter_bitmaps ! i \<noteq> 0) [0..<length letter_bitmaps]"

definition push_word :: "u32 \<Rightarrow> string \<Rightarrow> nat \<Rightarrow> buckets \<Rightarrow> buckets" where
  "push_word bitmap word i st =
     st\<lparr>word_bitmaps_letters :=
          (word_bitmaps_letters st)[i := word_bitmaps_letters st ! i @ [bitmap]],
        unique_words_letters :=
          (unique_words_letters st)[i := unique_words_letters st ! i @ [word]]\<rparr>"

subsection \<open>Invariants\<close>

text \<open>
  \<open>encodes word bitmap\<close>: the word has length 5 and lines 107-109 give it that bitmap.
  \<open>list_ok seen i bs ws\<close> is what holds of letter list \<open>i\<close>, bitmaps \<open>bs\<close> and words
  \<open>ws\<close>, once the words \<open>seen\<close> have been read: the two vectors have the same length,
  no bitmap is there twice, the words stand in input order, every entry is one the loop
  sends to list \<open>i\<close>, has five bits set and stands beside the first word seen with that
  bitmap, and every bitmap of a word seen that belongs to list \<open>i\<close> is there.
\<close>

definition encodes :: "string \<Rightarrow> u32 \<Rightarrow> bool" where
  "encodes word bitmap \<longleftrightarrow> length word = WORD_LENGTH \<and> accumulate_bitmap word 0 = Inr bitmap"

definition list_ok :: "string list \<Rightarrow> nat \<Rightarrow> u32 list \<Rightarrow> string list \<Rightarrow> bool" where
  "list_ok seen i bs ws \<longleftrightarrow>
     length ws = length bs \<and> distinct bs \<and> subseq ws seen \<and>
     (\<forall>k<length bs. list_of (bs ! k) = Some i \<and> bitcount (bs ! k) = WORD_LENGTH \<and>
        find (\<lambda>w. encodes w (bs ! k)) seen = Some (ws ! k)) \<and>
     (\<forall>w\<in>set seen. \<forall>m. encodes w m \<and> bitcount m = WORD_LENGTH \<and> list_of m = Some i
        \<longrightarrow> m \<in> set bs)"

definition buckets_ok :: "string list \<Rightarrow> buckets \<Rightarrow> bool" where
  "buckets_ok seen st \<longleftrightarrow>
     length (word_bitmaps_letters st) = 13 \<and> length (unique_words_letters st) = 13 \<and>
     (\<forall>i<13. list_ok seen i (word_bitmaps_letters st ! i) (unique_words_letters st ! i))"

text \<open>
  What the search relies on: the array has \<open>number_of_words\<close> entries, the fourteen
  boundaries rise from 0 to that number, and an entry between boundary \<open>i\<close> and the next
  is one at which the loop over the letter lists stopped at \<open>i\<close>.
\<close>

definition index_wf :: "search_index \<Rightarrow> bool" where
  "index_wf idx \<longleftrightarrow>
     length (word_bitmaps idx) = number_of_words idx \<and>
     length (unique_words idx) = number_of_words idx \<and>
     length (word_bitmaps_boundaries idx) = 14 \<and>
     word_bitmaps_boundaries idx ! 0 = 0 \<and>
     word_bitmaps_boundaries idx ! 13 = number_of_words idx \<and>
     (\<forall>i<13. word_bitmaps_boundaries idx ! i \<le> word_bitmaps_boundaries idx ! Suc i) \<and>
     (\<forall>i<13. \<forall>k. word_bitmaps_boundaries idx ! i \<le> k \<and> k < word_bitmaps_boundaries idx ! Suc i
        \<longrightarrow> list_of (word_bitmaps idx ! k) = Some i)"

subsection \<open>The loops of the search as list expressions\<close>

text \<open>
  The candidates of a pair as one filter over the indices after \<open>j\<close>, and what the
  loops over \<open>c\<close>, \<open>b\<close> and \<open>a\<close> and the body of the loop over \<open>j\<close> append to the
  matches. The lemmas below show that the loops of the program compute these lists.
\<close>

definition candidates :: "search_index \<Rightarrow> nat \<Rightarrow> u32 \<Rightarrow> nat list" where
  "candidates idx j used_ij =
     filter (\<lambda>k. used_ij AND word_bitmaps idx ! k = 0) [j + 1..<number_of_words idx]"

definition c_list ::
  "(nat \<Rightarrow> nat \<Rightarrow> nat \<Rightarrow> nat \<Rightarrow> nat \<Rightarrow> 'm) \<Rightarrow> u32 list \<Rightarrow> nat list \<Rightarrow> nat \<Rightarrow> nat \<Rightarrow> nat \<Rightarrow> nat \<Rightarrow> u32
     \<Rightarrow> 'm list"
where
  "c_list emit cb ci i j a b u =
     concat (map (\<lambda>c. if u AND cb ! c \<noteq> 0 then []
                       else [emit i j (ci ! a) (ci ! b) (ci ! c)]) [b + 1..<length cb])"

definition b_list ::
  "(nat \<Rightarrow> nat \<Rightarrow> nat \<Rightarrow> nat \<Rightarrow> nat \<Rightarrow> 'm) \<Rightarrow> u32 list \<Rightarrow> nat list \<Rightarrow> nat \<Rightarrow> nat \<Rightarrow> nat \<Rightarrow> u32
     \<Rightarrow> 'm list"
where
  "b_list emit cb ci i j a u =
     concat (map (\<lambda>b. if u AND cb ! b \<noteq> 0 then []
                       else c_list emit cb ci i j a b (u OR cb ! b)) [a + 1..<length cb])"

definition a_list ::
  "(nat \<Rightarrow> nat \<Rightarrow> nat \<Rightarrow> nat \<Rightarrow> nat \<Rightarrow> 'm) \<Rightarrow> u32 list \<Rightarrow> nat list \<Rightarrow> nat \<Rightarrow> nat \<Rightarrow> u32
     \<Rightarrow> 'm list"
where
  "a_list emit cb ci i j u =
     concat (map (\<lambda>a. b_list emit cb ci i j a (u OR cb ! a)) [0..<length cb])"

definition pair_list ::
  "(nat \<Rightarrow> nat \<Rightarrow> nat \<Rightarrow> nat \<Rightarrow> nat \<Rightarrow> 'm) \<Rightarrow> search_index \<Rightarrow> nat \<Rightarrow> nat \<Rightarrow> 'm list"
where
  "pair_list emit idx i j =
     (if word_bitmaps idx ! i AND word_bitmaps idx ! j \<noteq> 0 then []
      else
        let used_ij = word_bitmaps idx ! i OR word_bitmaps idx ! j in
        case find_candidates idx j used_ij of
          (candidate_bitmaps, candidate_indices) \<Rightarrow>
            if length candidate_bitmaps < WORD_LENGTH - 2 then []
            else a_list emit candidate_bitmaps candidate_indices i j used_ij)"

subsection \<open>The reference search\<close>

text \<open>
  Five bitmaps, no two of which share a bit.
\<close>

definition disjoint5 :: "u32 \<Rightarrow> u32 \<Rightarrow> u32 \<Rightarrow> u32 \<Rightarrow> u32 \<Rightarrow> bool" where
  "disjoint5 m1 m2 m3 m4 m5 \<longleftrightarrow>
     m1 AND m2 = 0 \<and> m1 AND m3 = 0 \<and> m1 AND m4 = 0 \<and> m1 AND m5 = 0 \<and>
     m2 AND m3 = 0 \<and> m2 AND m4 = 0 \<and> m2 AND m5 = 0 \<and>
     m3 AND m4 = 0 \<and> m3 AND m5 = 0 \<and> m4 AND m5 = 0"

text \<open>
  The specification's reference search: every index tuple \<open>i < j < a < b < c\<close> below the
  number of words, kept when its five bitmaps are pairwise disjoint.
\<close>

definition brute_force ::
  "(nat \<Rightarrow> nat \<Rightarrow> nat \<Rightarrow> nat \<Rightarrow> nat \<Rightarrow> 'm) \<Rightarrow> search_index \<Rightarrow> 'm list"
where
  "brute_force emit idx =
     [emit i j a b c.
        i \<leftarrow> [0..<number_of_words idx],
        j \<leftarrow> [i + 1..<number_of_words idx],
        a \<leftarrow> [j + 1..<number_of_words idx],
        b \<leftarrow> [a + 1..<number_of_words idx],
        c \<leftarrow> [b + 1..<number_of_words idx],
        disjoint5 (word_bitmaps idx ! i) (word_bitmaps idx ! j) (word_bitmaps idx ! a)
          (word_bitmaps idx ! b) (word_bitmaps idx ! c)]"

subsection \<open>Matches as letter sets\<close>

text \<open>
  The letter sets of a match: the encodings of its words.
\<close>

definition match_letter_sets :: "string list \<Rightarrow> (error + u32) set" where
  "match_letter_sets match = (\<lambda>w. accumulate_bitmap w 0) ` set match"

text \<open>
  The sets of five pairwise disjoint bitmaps among given bitmaps.
\<close>

definition compatible5 :: "u32 set \<Rightarrow> u32 set set" where
  "compatible5 M = {S. S \<subseteq> M \<and> card S = 5 \<and> (\<forall>x\<in>S. \<forall>y\<in>S. x \<noteq> y \<longrightarrow> x AND y = 0)}"

subsection \<open>Example inputs\<close>

text \<open>
  A word list with a word of a repeated letter, a word of four letters, five words with
  no letter in common and a second word of the letters of \<open>gucks\<close>; and the array built
  from it.
\<close>

definition example_words :: "string list" where
  "example_words =
     [''hello'', ''word'', ''fjord'', ''gucks'', ''nymph'', ''vibex'', ''waltz'', ''gucsk'']"

definition example_index :: search_index where
  "example_index =
     \<lparr>word_bitmaps = [10486034, 38275073, 148008, 16822400, 1311812],
      unique_words = [''vibex'', ''waltz'', ''fjord'', ''nymph'', ''gucks''],
      word_bitmaps_boundaries = [0, 1, 2, 2, 3, 3, 4, 5, 5, 5, 5, 5, 5, 5],
      number_of_words = 5\<rparr>"

text \<open>
  The same list with its last word moved to the front.
\<close>

definition example_words_permuted :: "string list" where
  "example_words_permuted =
     [''gucsk'', ''hello'', ''word'', ''fjord'', ''gucks'', ''nymph'', ''vibex'', ''waltz'']"

text \<open>
  The four words of the specification's small scenario, and their array.
\<close>

definition tiny_words :: "string list" where
  "tiny_words = [''nymph'', ''fjord'', ''waltz'', ''glyph'']"

definition tiny_index :: search_index where
  "tiny_index =
     \<lparr>word_bitmaps = [38275073, 148008, 16822400, 16812224],
      unique_words = [''waltz'', ''fjord'', ''nymph'', ''glyph''],
      word_bitmaps_boundaries = [0, 0, 1, 1, 2, 2, 3, 3, 4, 4, 4, 4, 4, 4],
      number_of_words = 4\<rparr>"

text \<open>
  Five words with no letter in common, two of them in the last letter list, in either
  order, and their arrays.
\<close>

definition swap_words :: "string list" where
  "swap_words = [''bcfgj'', ''kmpqv'', ''wxyze'', ''adhil'', ''norst'']"

definition swap_words_permuted :: "string list" where
  "swap_words_permuted = [''kmpqv'', ''bcfgj'', ''wxyze'', ''adhil'', ''norst'']"

definition swap_index :: search_index where
  "swap_index =
     \<lparr>word_bitmaps = [62914576, 942080, 2441, 614, 2200576],
      unique_words = [''wxyze'', ''norst'', ''adhil'', ''bcfgj'', ''kmpqv''],
      word_bitmaps_boundaries = [0, 1, 2, 3, 3, 3, 3, 3, 3, 3, 3, 3, 3, 5],
      number_of_words = 5\<rparr>"

definition swap_index_permuted :: search_index where
  "swap_index_permuted =
     \<lparr>word_bitmaps = [62914576, 942080, 2441, 2200576, 614],
      unique_words = [''wxyze'', ''norst'', ''adhil'', ''kmpqv'', ''bcfgj''],
      word_bitmaps_boundaries = [0, 1, 2, 3, 3, 3, 3, 3, 3, 3, 3, 3, 3, 5],
      number_of_words = 5\<rparr>"

section \<open>Verification\<close>

subsection \<open>Bit counting and disjoint bitmaps\<close>

lemma bitcount_card: "bitcount w = card {n. bit w n}"
proof -
  have "{n. bit w n} = set (filter (bit w) [0..<32])"
    by (auto dest: bit_imp_le_length)
  moreover have "card (set (filter (bit w) [0..<32])) = length (filter (bit w) [0..<32])"
    by (rule distinct_card) simp
  ultimately show ?thesis
    by (simp only: bitcount_def)
qed

lemma bitcount_or:
  assumes "a AND b = 0"
  shows "bitcount (a OR b) = bitcount a + bitcount b"
proof -
  have "\<not> (bit a n \<and> bit b n)" for n
  proof
    assume "bit a n \<and> bit b n"
    then have "bit (a AND b) n" by (simp add: bit_and_iff)
    with assms show False by simp
  qed
  then have "{n. bit a n} \<inter> {n. bit b n} = {}"
    by auto
  moreover have "{n. bit (a OR b) n} = {n. bit a n} \<union> {n. bit b n}"
    by (auto simp: bit_or_iff)
  ultimately show ?thesis
    by (simp add: bitcount_card card_Un_disjoint)
qed

lemma and_or_zero: "(x :: u32) AND (y OR z) = 0 \<longleftrightarrow> x AND y = 0 \<and> x AND z = 0"
  by (simp add: bit.conj_disj_distrib or_eq_0_iff)

lemma or_and_zero: "((y :: u32) OR z) AND x = 0 \<longleftrightarrow> y AND x = 0 \<and> z AND x = 0"
  by (simp add: bit.conj_disj_distrib2 or_eq_0_iff)

lemma pow_meet:
  assumes "(x :: u32) AND 2 ^ s \<noteq> 0" and "2 ^ s AND (u :: u32) \<noteq> 0"
  shows "u AND x \<noteq> 0"
proof -
  from assms have "bit x s" "bit u s"
    by (auto simp: and_exp_eq_0_iff_not_bit and.commute)
  then have "bit (u AND x) s" by (simp add: bit_and_iff)
  then show ?thesis by auto
qed

subsection \<open>Where the loop over the letter lists stops\<close>

lemma place_find:
  "place bitmap word i st =
     (case find (\<lambda>i. bitmap AND letter_bitmaps ! i \<noteq> 0) [i..<length letter_bitmaps] of
        None \<Rightarrow> st
      | Some k \<Rightarrow>
          if bitmap \<notin> set (word_bitmaps_letters st ! k) then push_word bitmap word k st
          else st)"
proof (induction bitmap word i st rule: place.induct)
  case (1 bitmap word i st)
  show ?case
  proof (cases "i < length letter_bitmaps")
    case False
    then have "place bitmap word i st = st" by (subst place.simps) simp
    with False show ?thesis by simp
  next
    case True
    then have upt: "[i..<length letter_bitmaps] = i # [Suc i..<length letter_bitmaps]"
      by (rule upt_conv_Cons)
    show ?thesis
    proof (cases "bitmap AND letter_bitmaps ! i \<noteq> 0")
      case hit: True
      with True have "place bitmap word i st =
          (if bitmap \<notin> set (word_bitmaps_letters st ! i) then push_word bitmap word i st
           else st)"
        by (subst place.simps) (simp add: push_word_def)
      with hit show ?thesis
        by (simp add: upt del: upt_Suc)
    next
      case miss: False
      with True have "place bitmap word i st = place bitmap word (Suc i) st"
        by (subst place.simps) simp
      with miss True 1 show ?thesis
        by (simp add: upt del: upt_Suc)
    qed
  qed
qed

lemma place_list_of:
  "place bitmap word 0 st =
     (case list_of bitmap of
        None \<Rightarrow> st
      | Some k \<Rightarrow>
          if bitmap \<notin> set (word_bitmaps_letters st ! k) then push_word bitmap word k st
          else st)"
  by (simp add: place_find list_of_def)

lemma length_letter_bitmaps: "length letter_bitmaps = 13"
  by (simp add: letter_bitmaps_def letters_def)

text \<open>
  The entries of lines 87-93 and of line 165 as numbers: one bit for each pivot letter,
  then \<open>0xffff\<close> while the words are sorted and 0 during the search.
\<close>

lemma letter_bitmaps_values [code]:
  "letter_bitmaps =
     [16, 524288, 1, 16384, 256, 8192, 262144, 128, 131072, 2048, 8, 1048576, 65535]"
  by (simp add: letter_bitmaps_def letters_def letter_bit_def shift_amount_def char_int_def)

lemma letter_bitmaps_reset_values [code]:
  "letter_bitmaps_reset =
     [16, 524288, 1, 16384, 256, 8192, 262144, 128, 131072, 2048, 8, 1048576, 0]"
  by (simp add: letter_bitmaps_reset_def letter_bitmaps_values)

lemma list_of_SomeD:
  assumes "list_of m = Some i"
  shows "i < 13" and "m AND letter_bitmaps ! i \<noteq> 0"
proof -
  from assms have "i \<in> set [0..<length letter_bitmaps] \<and> m AND letter_bitmaps ! i \<noteq> 0"
    unfolding list_of_def by (auto simp: find_Some_iff)
  then show "i < 13" and "m AND letter_bitmaps ! i \<noteq> 0"
    by (simp_all add: length_letter_bitmaps)
qed

lemma find_append:
  "find P (xs @ ys) = (case find P xs of None \<Rightarrow> find P ys | Some x \<Rightarrow> Some x)"
  by (induction xs) simp_all

lemma encodes_fun: "encodes w m \<Longrightarrow> encodes w m' \<Longrightarrow> m = m'"
  by (simp add: encodes_def)

lemma list_ok_skip:
  assumes ok: "list_ok seen i bs ws"
    and old: "\<And>m. encodes w m \<Longrightarrow> bitcount m = WORD_LENGTH \<Longrightarrow> list_of m = Some i \<Longrightarrow> m \<in> set bs"
  shows "list_ok (seen @ [w]) i bs ws"
proof -
  from ok have "subseq ws seen" by (simp add: list_ok_def)
  then have sub: "subseq ws (seen @ [w])"
    by (rule subseq_rev_drop_many)
  have fnd: "find (\<lambda>w. encodes w (bs ! k)) (seen @ [w]) = Some (ws ! k)" if "k < length bs" for k
    using ok that by (simp add: list_ok_def find_append)
  show ?thesis
    unfolding list_ok_def
  proof (intro conjI)
    show "length ws = length bs" "distinct bs" using ok by (simp_all add: list_ok_def)
    show "subseq ws (seen @ [w])" by (rule sub)
    show "\<forall>k<length bs. list_of (bs ! k) = Some i \<and> bitcount (bs ! k) = WORD_LENGTH \<and>
        find (\<lambda>w. encodes w (bs ! k)) (seen @ [w]) = Some (ws ! k)"
      using ok fnd by (simp add: list_ok_def)
    show "\<forall>w\<in>set (seen @ [w]). \<forall>m. encodes w m \<and> bitcount m = WORD_LENGTH \<and> list_of m = Some i
        \<longrightarrow> m \<in> set bs"
      using ok old by (auto simp: list_ok_def)
  qed
qed

lemma list_ok_push:
  assumes ok: "list_ok seen i bs ws"
    and enc: "encodes w m" and cnt: "bitcount m = WORD_LENGTH" and lst: "list_of m = Some i"
    and new: "m \<notin> set bs"
  shows "list_ok (seen @ [w]) i (bs @ [m]) (ws @ [w])"
proof -
  from ok have len: "length ws = length bs" and "subseq ws seen"
    by (simp_all add: list_ok_def)
  then have sub: "subseq (ws @ [w]) (seen @ [w])"
    by (simp add: list_emb_append_mono)
  have unseen: "find (\<lambda>w. encodes w m) seen = None"
  proof -
    have "\<not> encodes v m" if "v \<in> set seen" for v
      using ok that cnt lst new by (auto simp: list_ok_def)
    then show ?thesis by (simp add: find_None_iff)
  qed
  have fnd: "find (\<lambda>w. encodes w ((bs @ [m]) ! k)) (seen @ [w]) = Some ((ws @ [w]) ! k)"
    if "k < length (bs @ [m])" for k
  proof (cases "k < length bs")
    case True
    with ok len show ?thesis by (simp add: list_ok_def find_append nth_append)
  next
    case False
    with that have "k = length bs" by simp
    with len unseen enc show ?thesis by (simp add: find_append nth_append)
  qed
  have elems: "list_of ((bs @ [m]) ! k) = Some i \<and> bitcount ((bs @ [m]) ! k) = WORD_LENGTH"
    if "k < length (bs @ [m])" for k
    using ok that cnt lst by (cases "k < length bs") (auto simp: list_ok_def nth_append)
  show ?thesis
    unfolding list_ok_def
  proof (intro conjI)
    show "length (ws @ [w]) = length (bs @ [m])" using len by simp
    show "distinct (bs @ [m])" using ok new by (simp add: list_ok_def)
    show "subseq (ws @ [w]) (seen @ [w])" by (rule sub)
    show "\<forall>k<length (bs @ [m]). list_of ((bs @ [m]) ! k) = Some i \<and>
        bitcount ((bs @ [m]) ! k) = WORD_LENGTH \<and>
        find (\<lambda>w. encodes w ((bs @ [m]) ! k)) (seen @ [w]) = Some ((ws @ [w]) ! k)"
      using fnd elems by blast
    show "\<forall>w\<in>set (seen @ [w]). \<forall>m'. encodes w m' \<and> bitcount m' = WORD_LENGTH \<and>
        list_of m' = Some i \<longrightarrow> m' \<in> set (bs @ [m])"
      using ok enc by (auto simp: list_ok_def dest: encodes_fun)
  qed
qed

lemma buckets_ok_same:
  assumes ok: "buckets_ok seen st"
    and old: "\<And>m i. encodes w m \<Longrightarrow> bitcount m = WORD_LENGTH \<Longrightarrow> list_of m = Some i
                \<Longrightarrow> m \<in> set (word_bitmaps_letters st ! i)"
  shows "buckets_ok (seen @ [w]) st"
  using ok old unfolding buckets_ok_def by (auto intro: list_ok_skip)

lemma buckets_ok_push:
  assumes ok: "buckets_ok seen st"
    and enc: "encodes w m" and cnt: "bitcount m = WORD_LENGTH" and lst: "list_of m = Some k"
    and new: "m \<notin> set (word_bitmaps_letters st ! k)"
  shows "buckets_ok (seen @ [w]) (push_word m w k st)"
proof -
  from lst have k: "k < 13" by (rule list_of_SomeD)
  have "list_ok (seen @ [w]) i (word_bitmaps_letters (push_word m w k st) ! i)
          (unique_words_letters (push_word m w k st) ! i)" if i: "i < 13" for i
  proof (cases "i = k")
    case True
    with ok k have "list_ok seen k (word_bitmaps_letters st ! k) (unique_words_letters st ! k)"
      by (simp add: buckets_ok_def)
    from list_ok_push [OF this enc cnt lst new] True ok k show ?thesis
      by (simp add: push_word_def buckets_ok_def)
  next
    case False
    from ok i have "list_ok seen i (word_bitmaps_letters st ! i) (unique_words_letters st ! i)"
      by (simp add: buckets_ok_def)
    then have "list_ok (seen @ [w]) i (word_bitmaps_letters st ! i) (unique_words_letters st ! i)"
    proof (rule list_ok_skip)
      fix m' assume "encodes w m'" and "list_of m' = Some i"
      with enc lst False show "m' \<in> set (word_bitmaps_letters st ! i)"
        by (auto dest: encodes_fun)
    qed
    with False show ?thesis
      by (simp add: push_word_def)
  qed
  with ok show ?thesis
    by (simp add: buckets_ok_def push_word_def)
qed

lemma process_word_ok:
  assumes ok: "buckets_ok seen st" and step: "process_word w st = Inr st'"
  shows "buckets_ok (seen @ [w]) st'"
proof (cases "length w = WORD_LENGTH")
  case False
  with step have "st' = st" by (simp add: process_word_def)
  moreover from False have "\<not> encodes w m" for m by (simp add: encodes_def)
  ultimately show ?thesis using ok by (auto intro: buckets_ok_same)
next
  case True
  with step obtain b where b: "accumulate_bitmap w 0 = Inr b"
    by (auto simp: process_word_def split: sum.splits)
  with True have enc: "encodes w b" by (simp add: encodes_def)
  show ?thesis
  proof (cases "bitcount b = WORD_LENGTH")
    case False
    with step True b have "st' = st" by (simp add: process_word_def)
    moreover have "m \<in> set (word_bitmaps_letters st ! i)"
      if "encodes w m" and "bitcount m = WORD_LENGTH" for m i
      using that enc False by (auto dest: encodes_fun)
    ultimately show ?thesis using ok by (auto intro: buckets_ok_same)
  next
    case cnt: True
    with step True b have st': "st' = place b w 0 st" by (simp add: process_word_def)
    show ?thesis
    proof (cases "list_of b")
      case None
      with st' have "st' = st" by (simp add: place_list_of)
      moreover have "m \<in> set (word_bitmaps_letters st ! i)"
        if "encodes w m" and "list_of m = Some i" for m i
        using that enc None by (auto dest: encodes_fun)
      ultimately show ?thesis using ok by (auto intro: buckets_ok_same)
    next
      case (Some k)
      show ?thesis
      proof (cases "b \<in> set (word_bitmaps_letters st ! k)")
        case True
        with st' Some have "st' = st" by (simp add: place_list_of)
        moreover have "m \<in> set (word_bitmaps_letters st ! i)"
          if "encodes w m" and "list_of m = Some i" for m i
          using that enc Some True by (auto dest: encodes_fun)
        ultimately show ?thesis using ok by (auto intro: buckets_ok_same)
      next
        case False
        with st' Some have "st' = push_word b w k st" by (simp add: place_list_of)
        with buckets_ok_push [OF ok enc cnt Some False] show ?thesis by simp
      qed
    qed
  qed
qed

lemma filter_words_ok:
  "buckets_ok seen st \<Longrightarrow> filter_words word_list st = Inr st'
     \<Longrightarrow> buckets_ok (seen @ word_list) st'"
proof (induction word_list arbitrary: seen st)
  case Nil
  then show ?case by simp
next
  case (Cons w word_list)
  from Cons.prems(2) obtain st1 where
    st1: "process_word w st = Inr st1" and rest: "filter_words word_list st1 = Inr st'"
    by (auto split: sum.splits)
  from process_word_ok [OF Cons.prems(1) st1] have "buckets_ok (seen @ [w]) st1" .
  from Cons.IH [OF this rest] show ?case by simp
qed

lemma empty_buckets_ok: "buckets_ok [] empty_buckets"
  by (simp add: buckets_ok_def empty_buckets_def length_letter_bitmaps list_ok_def)

text \<open>A run is defined exactly when every word of length five is encoded without an undefined shift.\<close>

lemma process_word_defined:
  "(\<exists>st'. process_word w st = Inr st') \<longleftrightarrow>
     (length w = WORD_LENGTH \<longrightarrow> \<not> isl (accumulate_bitmap w 0))"
  by (auto simp: process_word_def split: sum.splits)

lemma filter_words_defined:
  "(\<exists>st'. filter_words word_list st = Inr st') \<longleftrightarrow>
     (\<forall>w\<in>set word_list. length w = WORD_LENGTH \<longrightarrow> \<not> isl (accumulate_bitmap w 0))"
proof (induction word_list arbitrary: st)
  case Nil
  then show ?case by simp
next
  case (Cons w word_list)
  show ?case
  proof (cases "process_word w st")
    case (Inl e)
    with process_word_defined [of w st] show ?thesis by auto
  next
    case (Inr st1)
    with process_word_defined [of w st] Cons.IH [of st1] show ?thesis by auto
  qed
qed

subsection \<open>The joined array\<close>

lemma fold_combine_step:
  "n \<le> length (word_bitmaps_letters st) \<Longrightarrow>
   fold (combine_step st) [0..<n] ([], [], []) =
     (concat (take n (word_bitmaps_letters st)),
      concat (map (\<lambda>i. unique_words_letters st ! i) [0..<n]),
      map (\<lambda>i. length (concat (take i (word_bitmaps_letters st)))) [0..<n])"
proof (induction n)
  case 0
  then show ?case by simp
next
  case (Suc n)
  then show ?case
    by (simp add: combine_step_def take_Suc_conv_app_nth)
qed

lemma concat_map_nth: "concat (map (\<lambda>i. xss ! i) [0..<length xss]) = concat xss"
  by (simp add: map_nth)

lemma combine_eq:
  assumes "length (unique_words_letters st) = length (word_bitmaps_letters st)"
  shows "combine st =
     \<lparr>word_bitmaps = concat (word_bitmaps_letters st),
      unique_words = concat (unique_words_letters st),
      word_bitmaps_boundaries =
        map (\<lambda>i. length (concat (take i (word_bitmaps_letters st))))
          [0..<Suc (length (word_bitmaps_letters st))],
      number_of_words = length (concat (word_bitmaps_letters st))\<rparr>"
proof -
  have "concat (map (\<lambda>i. unique_words_letters st ! i) [0..<length (word_bitmaps_letters st)])
        = concat (unique_words_letters st)"
    using concat_map_nth [of "unique_words_letters st"] assms by simp
  then show ?thesis
    by (simp add: combine_def fold_combine_step length_concat)
qed

lemma concat_nth_section:
  assumes i: "i < length xss"
    and lo: "length (concat (take i xss)) \<le> k"
    and hi: "k < length (concat (take (Suc i) xss))"
  shows "concat xss ! k = xss ! i ! (k - length (concat (take i xss)))"
    and "k - length (concat (take i xss)) < length (xss ! i)"
proof -
  from i have "xss = take i xss @ xss ! i # drop (Suc i) xss"
    by (rule id_take_nth_drop)
  then have split: "concat xss = concat (take i xss) @ xss ! i @ concat (drop (Suc i) xss)"
    by (metis concat.simps(2) concat_append)
  from i hi have hi': "k < length (concat (take i xss)) + length (xss ! i)"
    by (simp add: take_Suc_conv_app_nth)
  with lo show "k - length (concat (take i xss)) < length (xss ! i)" by simp
  with lo show "concat xss ! k = xss ! i ! (k - length (concat (take i xss)))"
    by (subst split) (simp add: nth_append)
qed

lemma concat_section_exists:
  assumes "k < length (concat xss)"
  shows "\<exists>i<length xss. length (concat (take i xss)) \<le> k \<and> k < length (concat (take (Suc i) xss))"
  using assms
proof (induction xss rule: rev_induct)
  case Nil
  then show ?case by simp
next
  case (snoc xs xss)
  show ?case
  proof (cases "k < length (concat xss)")
    case True
    from snoc.IH [OF this] obtain i where "i < length xss"
      "length (concat (take i xss)) \<le> k" "k < length (concat (take (Suc i) xss))" by blast
    then show ?thesis by (intro exI [of _ i]) simp
  next
    case False
    with snoc.prems show ?thesis by (intro exI [of _ "length xss"]) simp
  qed
qed

lemma build_indexD:
  assumes "build_index word_list = Inr idx"
  obtains st where "buckets_ok word_list st" and "idx = combine st"
proof -
  from assms obtain st where st: "filter_words word_list empty_buckets = Inr st"
    and idx: "idx = combine st"
    by (auto simp: build_index_def split: sum.splits)
  from filter_words_ok [OF empty_buckets_ok st] have "buckets_ok word_list st" by simp
  with idx that show thesis by blast
qed

lemma offsets_same:
  assumes ok: "buckets_ok seen st" and i: "i \<le> 13"
  shows "length (concat (take i (unique_words_letters st))) =
         length (concat (take i (word_bitmaps_letters st)))"
  using i
proof (induction i)
  case 0
  then show ?case by simp
next
  case (Suc i)
  moreover from ok Suc.prems
  have "length (unique_words_letters st ! i) = length (word_bitmaps_letters st ! i)"
    by (simp add: buckets_ok_def list_ok_def)
  moreover from ok Suc.prems
  have "i < length (unique_words_letters st)" "i < length (word_bitmaps_letters st)"
    by (simp_all add: buckets_ok_def)
  ultimately show ?case
    by (simp add: take_Suc_conv_app_nth)
qed

lemma take_all_13: "length xss = 13 \<Longrightarrow> take 13 xss = xss"
  by simp

lemma combine_ok_eq:
  assumes ok: "buckets_ok seen st"
  shows "word_bitmaps (combine st) = concat (word_bitmaps_letters st)"
    and "unique_words (combine st) = concat (unique_words_letters st)"
    and "number_of_words (combine st) = length (concat (word_bitmaps_letters st))"
    and "length (word_bitmaps_boundaries (combine st)) = 14"
    and "i \<le> 13 \<Longrightarrow> word_bitmaps_boundaries (combine st) ! i =
           length (concat (take i (word_bitmaps_letters st)))"
proof -
  from ok have len: "length (unique_words_letters st) = length (word_bitmaps_letters st)"
    and len13: "length (word_bitmaps_letters st) = 13"
    by (simp_all add: buckets_ok_def)
  note eq = combine_eq [OF len]
  show "word_bitmaps (combine st) = concat (word_bitmaps_letters st)"
    and "unique_words (combine st) = concat (unique_words_letters st)"
    and "number_of_words (combine st) = length (concat (word_bitmaps_letters st))"
    by (simp_all add: eq)
  show "length (word_bitmaps_boundaries (combine st)) = 14"
    by (simp add: eq len13)
  show "word_bitmaps_boundaries (combine st) ! i =
           length (concat (take i (word_bitmaps_letters st)))" if "i \<le> 13"
  proof -
    from that len13 have "i < length [0..<Suc (length (word_bitmaps_letters st))]" by simp
    then show ?thesis
      unfolding eq by (simp add: nth_map_upt del: upt_Suc)
  qed
qed

text \<open>Every entry of the joined array lies in one section, at its place in that letter list.\<close>

lemma combine_entry:
  assumes ok: "buckets_ok seen st" and k: "k < number_of_words (combine st)"
  obtains i where "i < 13"
    and "word_bitmaps_boundaries (combine st) ! i \<le> k"
    and "k < word_bitmaps_boundaries (combine st) ! Suc i"
    and "k - word_bitmaps_boundaries (combine st) ! i < length (word_bitmaps_letters st ! i)"
    and "word_bitmaps (combine st) ! k =
           word_bitmaps_letters st ! i ! (k - word_bitmaps_boundaries (combine st) ! i)"
    and "unique_words (combine st) ! k =
           unique_words_letters st ! i ! (k - word_bitmaps_boundaries (combine st) ! i)"
proof -
  let ?B = "word_bitmaps_letters st" and ?U = "unique_words_letters st"
  from ok have lenB: "length ?B = 13" and lenU: "length ?U = 13"
    by (simp_all add: buckets_ok_def)
  from k have "k < length (concat ?B)" by (simp add: combine_ok_eq [OF ok])
  from concat_section_exists [OF this] lenB obtain i where i: "i < 13"
    and lo: "length (concat (take i ?B)) \<le> k"
    and hi: "k < length (concat (take (Suc i) ?B))" by auto
  from i lenB have iB: "i < length ?B" by simp
  from i lenU have iU: "i < length ?U" by simp
  from i have loU: "length (concat (take i ?U)) \<le> k"
    and hiU: "k < length (concat (take (Suc i) ?U))"
    using lo hi offsets_same [OF ok, of i] offsets_same [OF ok, of "Suc i"] by simp_all
  from i have b: "word_bitmaps_boundaries (combine st) ! i = length (concat (take i ?B))"
    and b': "word_bitmaps_boundaries (combine st) ! Suc i = length (concat (take (Suc i) ?B))"
    by (simp_all add: combine_ok_eq [OF ok])
  note secB = concat_nth_section [OF iB lo hi]
  note secU = concat_nth_section [OF iU loU hiU]
  from i have same: "length (concat (take i ?U)) = length (concat (take i ?B))"
    using offsets_same [OF ok, of i] by simp
  show thesis
  proof (rule that [of i])
    show "i < 13" by (rule i)
    show "word_bitmaps_boundaries (combine st) ! i \<le> k" using lo b by simp
    show "k < word_bitmaps_boundaries (combine st) ! Suc i" using hi b' by simp
    show "k - word_bitmaps_boundaries (combine st) ! i < length (?B ! i)"
      using secB(2) b by simp
    show "word_bitmaps (combine st) ! k = ?B ! i ! (k - word_bitmaps_boundaries (combine st) ! i)"
      using secB(1) b by (simp add: combine_ok_eq [OF ok])
    show "unique_words (combine st) ! k = ?U ! i ! (k - word_bitmaps_boundaries (combine st) ! i)"
      using secU(1) b same by (simp add: combine_ok_eq [OF ok])
  qed
qed

lemma combine_section:
  assumes ok: "buckets_ok seen st" and i: "i < 13"
    and lo: "word_bitmaps_boundaries (combine st) ! i \<le> k"
    and hi: "k < word_bitmaps_boundaries (combine st) ! Suc i"
  shows "list_of (word_bitmaps (combine st) ! k) = Some i"
proof -
  let ?B = "word_bitmaps_letters st"
  from ok i have iB: "i < length ?B" by (simp add: buckets_ok_def)
  from i have b: "word_bitmaps_boundaries (combine st) ! i = length (concat (take i ?B))"
    and b': "word_bitmaps_boundaries (combine st) ! Suc i = length (concat (take (Suc i) ?B))"
    by (simp_all add: combine_ok_eq [OF ok])
  from lo hi have lo': "length (concat (take i ?B)) \<le> k"
    and hi': "k < length (concat (take (Suc i) ?B))" by (simp_all add: b b')
  note sec = concat_nth_section [OF iB lo' hi']
  from ok i sec(2) have "list_of (?B ! i ! (k - length (concat (take i ?B)))) = Some i"
    by (simp add: buckets_ok_def list_ok_def)
  with sec(1) show ?thesis by (simp add: combine_ok_eq [OF ok])
qed

lemma build_index_wf:
  assumes "build_index word_list = Inr idx"
  shows "index_wf idx"
proof -
  from assms obtain st where ok: "buckets_ok word_list st" and idx: "idx = combine st"
    by (rule build_indexD)
  let ?B = "word_bitmaps_letters st"
  from ok have len13: "length ?B = 13" by (simp add: buckets_ok_def)
  have mono: "word_bitmaps_boundaries idx ! i \<le> word_bitmaps_boundaries idx ! Suc i"
    if "i < 13" for i
    using that len13 by (simp add: idx combine_ok_eq [OF ok] take_Suc_conv_app_nth)
  have "length (unique_words idx) = number_of_words idx"
    using offsets_same [OF ok, of 13] ok
    by (simp add: idx combine_ok_eq [OF ok] buckets_ok_def)
  moreover have "word_bitmaps_boundaries idx ! 13 = number_of_words idx"
    using len13 by (simp add: idx combine_ok_eq [OF ok])
  moreover have "word_bitmaps_boundaries idx ! 0 = 0"
    by (simp add: idx combine_ok_eq [OF ok])
  ultimately show ?thesis
    unfolding index_wf_def using mono combine_section [OF ok]
    by (simp add: idx combine_ok_eq [OF ok])
qed

subsection \<open>The candidates of a pair\<close>

lemma fold_append_concat:
  assumes "\<And>x acc. x \<in> set xs \<Longrightarrow> f x acc = acc @ g x"
  shows "fold f xs acc = acc @ concat (map g xs)"
  using assms by (induction xs arbitrary: acc) simp_all

lemma fold_pair_append:
  assumes "\<And>x cb ci. x \<in> set xs \<Longrightarrow> f x (cb, ci) = (cb @ map h (g x), ci @ g x)"
  shows "fold f xs (cb, ci) = (cb @ map h (concat (map g xs)), ci @ concat (map g xs))"
  using assms by (induction xs arbitrary: cb ci) simp_all

lemma scan_section_eq:
  "scan_section wb used_ij lo hi (cb, ci) =
     (cb @ map ((!) wb) (filter (\<lambda>k. used_ij AND wb ! k = 0) [lo..<hi]),
      ci @ filter (\<lambda>k. used_ij AND wb ! k = 0) [lo..<hi])"
proof -
  have "fold (\<lambda>k (candidate_bitmaps, candidate_indices).
             if used_ij AND wb ! k = 0
             then (candidate_bitmaps @ [wb ! k], candidate_indices @ [k])
             else (candidate_bitmaps, candidate_indices)) [lo..<hi] (cb, ci)
        = (cb @ map ((!) wb) (concat (map (\<lambda>k. if used_ij AND wb ! k = 0 then [k] else []) [lo..<hi])),
           ci @ concat (map (\<lambda>k. if used_ij AND wb ! k = 0 then [k] else []) [lo..<hi]))"
    by (rule fold_pair_append) simp
  moreover have "concat (map (\<lambda>k. if P k then [k] else []) xs) = filter P xs" for P and xs :: "nat list"
    by (induction xs) simp_all
  ultimately show ?thesis
    by (simp add: scan_section_def)
qed

lemma find_candidates_eq:
  "find_candidates idx j used_ij =
     (map ((!) (word_bitmaps idx))
        (concat (map (\<lambda>index.
           if letter_bitmaps_reset ! index AND used_ij = 0
           then filter (\<lambda>k. used_ij AND word_bitmaps idx ! k = 0)
                  [max (j + 1) (word_bitmaps_boundaries idx ! index)..<
                   word_bitmaps_boundaries idx ! (index + 1)]
           else []) [0..<length (word_bitmaps_boundaries idx) - 1])),
      concat (map (\<lambda>index.
           if letter_bitmaps_reset ! index AND used_ij = 0
           then filter (\<lambda>k. used_ij AND word_bitmaps idx ! k = 0)
                  [max (j + 1) (word_bitmaps_boundaries idx ! index)..<
                   word_bitmaps_boundaries idx ! (index + 1)]
           else []) [0..<length (word_bitmaps_boundaries idx) - 1]))"
  unfolding find_candidates_def
  by (rule fold_pair_append [where cb = "[]" and ci = "[]", simplified])
     (simp add: scan_section_eq)

lemma upt_max_append:
  assumes "a \<le> b" and "b \<le> c"
  shows "[max lo a..<b] @ [max lo b..<c] = [max lo a..<(c::nat)]"
proof (cases "lo \<le> b")
  case True
  with assms have "max lo a \<le> b" "max lo b = b" by simp_all
  moreover from assms obtain d where "c = b + d" by (auto simp: le_iff_add)
  ultimately show ?thesis using upt_add_eq_append [of "max lo a" b d] by simp
next
  case False
  with assms have "max lo a = lo" "max lo b = lo" "[lo..<b] = []" by simp_all
  then show ?thesis by simp
qed

lemma concat_sections:
  assumes "\<forall>i<m. b i \<le> b (Suc i)"
  shows "concat (map (\<lambda>i. [max lo (b i)..<b (Suc i)]) [0..<m]) = [max lo (b 0)..<(b m :: nat)]"
  using assms
proof (induction m)
  case 0
  then show ?case by simp
next
  case (Suc m)
  then have mono: "b 0 \<le> b m"
  proof -
    have "k \<le> m \<Longrightarrow> b 0 \<le> b k" for k
    proof (induction k)
      case 0 show ?case by simp
    next
      case (Suc k)
      with \<open>\<forall>i<Suc m. b i \<le> b (Suc i)\<close> have "b k \<le> b (Suc k)" "b 0 \<le> b k" by simp_all
      then show ?case by simp
    qed
    then show ?thesis by simp
  qed
  from Suc have "b m \<le> b (Suc m)" by simp
  from upt_max_append [OF mono this] Suc show ?case by simp
qed

text \<open>The pivot entries are single bits; the last one is 0 during the search.\<close>

lemma letter_bitmaps_reset_nth:
  "index < 12 \<Longrightarrow> \<exists>s. letter_bitmaps_reset ! index = 2 ^ s \<and> letter_bitmaps ! index = 2 ^ s"
  "letter_bitmaps_reset ! 12 = 0"
proof -
  show "letter_bitmaps_reset ! 12 = 0"
    by (simp add: letter_bitmaps_reset_def length_letter_bitmaps)
  assume "index < 12"
  then have "letter_bitmaps_reset ! index = letter_bitmaps ! index"
    by (simp add: letter_bitmaps_reset_def length_letter_bitmaps)
  moreover have "length letters = 12" by (simp add: letters_def)
  with \<open>index < 12\<close> have "letter_bitmaps ! index = letter_bit (letters ! index)"
    by (simp add: letter_bitmaps_def nth_append)
  ultimately show "\<exists>s. letter_bitmaps_reset ! index = 2 ^ s \<and> letter_bitmaps ! index = 2 ^ s"
    by (auto simp: letter_bit_def push_bit_of_1)
qed

text \<open>Skipping a section loses nothing: every entry there shares the pivot letter.\<close>

lemma pruned_section_empty:
  assumes wf: "index_wf idx" and index: "index < 13"
    and pruned: "letter_bitmaps_reset ! index AND used_ij \<noteq> 0"
  shows "filter (\<lambda>k. used_ij AND word_bitmaps idx ! k = 0)
           [max (j + 1) (word_bitmaps_boundaries idx ! index)..<
            word_bitmaps_boundaries idx ! (index + 1)] = []"
proof -
  from pruned letter_bitmaps_reset_nth(2) have "index \<noteq> 12" by auto
  with index have "index < 12" by simp
  from letter_bitmaps_reset_nth(1) [OF this] obtain s
    where r: "letter_bitmaps_reset ! index = 2 ^ s" and l: "letter_bitmaps ! index = 2 ^ s"
    by blast
  have "used_ij AND word_bitmaps idx ! k \<noteq> 0"
    if "word_bitmaps_boundaries idx ! index \<le> k" "k < word_bitmaps_boundaries idx ! Suc index"
    for k
  proof -
    from wf index that have "list_of (word_bitmaps idx ! k) = Some index"
      by (simp add: index_wf_def)
    then have "word_bitmaps idx ! k AND 2 ^ s \<noteq> 0"
      using list_of_SomeD(2) l by metis
    moreover from pruned r have "2 ^ s AND used_ij \<noteq> 0" by simp
    ultimately show ?thesis by (rule pow_meet)
  qed
  then show ?thesis
    by (auto simp: filter_empty_conv)
qed

lemma find_candidates_wf:
  assumes wf: "index_wf idx"
  shows "find_candidates idx j used_ij =
           (map ((!) (word_bitmaps idx)) (candidates idx j used_ij), candidates idx j used_ij)"
proof -
  let ?P = "\<lambda>k. used_ij AND word_bitmaps idx ! k = 0"
  let ?b = "\<lambda>i. word_bitmaps_boundaries idx ! i"
  from wf have len: "length (word_bitmaps_boundaries idx) - 1 = 13" by (simp add: index_wf_def)
  have "map (\<lambda>index.
           if letter_bitmaps_reset ! index AND used_ij = 0
           then filter ?P [max (j + 1) (?b index)..<?b (index + 1)]
           else []) [0..<13]
        = map (\<lambda>index. filter ?P [max (j + 1) (?b index)..<?b (Suc index)]) [0..<13]"
  proof (rule map_cong [OF refl])
    fix index assume "index \<in> set [0..<13]"
    then have "index < 13" by simp
    with pruned_section_empty [OF wf this, of used_ij j]
    show "(if letter_bitmaps_reset ! index AND used_ij = 0
           then filter ?P [max (j + 1) (?b index)..<?b (index + 1)] else [])
          = filter ?P [max (j + 1) (?b index)..<?b (Suc index)]"
      by auto
  qed
  also have "concat \<dots> = filter ?P (concat (map (\<lambda>index. [max (j + 1) (?b index)..<?b (Suc index)]) [0..<13]))"
    by (simp only: filter_concat map_map comp_def)
  also have "concat (map (\<lambda>index. [max (j + 1) (?b index)..<?b (Suc index)]) [0..<13])
             = [max (j + 1) (?b 0)..<?b 13]"
    using wf by (intro concat_sections) (simp add: index_wf_def)
  also have "\<dots> = [j + 1..<number_of_words idx]"
    using wf by (simp add: index_wf_def)
  finally have "concat (map (\<lambda>index.
           if letter_bitmaps_reset ! index AND used_ij = 0
           then filter ?P [max (j + 1) (?b index)..<?b (index + 1)]
           else []) [0..<13]) = candidates idx j used_ij"
    by (simp only: candidates_def)
  then show ?thesis
    by (simp only: find_candidates_eq len)
qed

subsection \<open>The three loops over the candidates\<close>

lemma loop_c_eq:
  "loop_c emit cb ci i j a b u matches = matches @ c_list emit cb ci i j a b u"
  unfolding loop_c_def c_list_def by (rule fold_append_concat) simp

lemma loop_b_eq:
  "loop_b emit cb ci i j a u matches = matches @ b_list emit cb ci i j a u"
  unfolding loop_b_def b_list_def by (rule fold_append_concat) (simp add: loop_c_eq)

lemma loop_a_eq:
  "loop_a emit cb ci i j u matches = matches @ a_list emit cb ci i j u"
  unfolding loop_a_def a_list_def by (rule fold_append_concat) (simp add: loop_b_eq)

lemma in_c_list:
  "x \<in> set (c_list emit cb ci i j a b u) \<longleftrightarrow>
     (\<exists>c. b < c \<and> c < length cb \<and> u AND cb ! c = 0 \<and> x = emit i j (ci ! a) (ci ! b) (ci ! c))"
  unfolding c_list_def by (auto simp: Suc_le_eq split: if_splits)

lemma in_b_list:
  "x \<in> set (b_list emit cb ci i j a u) \<longleftrightarrow>
     (\<exists>b c. a < b \<and> b < c \<and> c < length cb \<and> u AND cb ! b = 0 \<and> (u OR cb ! b) AND cb ! c = 0
        \<and> x = emit i j (ci ! a) (ci ! b) (ci ! c))"
proof
  assume "x \<in> set (b_list emit cb ci i j a u)"
  then obtain b where "a < b" "b < length cb" "u AND cb ! b = 0"
    and "x \<in> set (c_list emit cb ci i j a b (u OR cb ! b))"
    unfolding b_list_def by (auto simp: Suc_le_eq split: if_splits)
  then show "\<exists>b c. a < b \<and> b < c \<and> c < length cb \<and> u AND cb ! b = 0 \<and>
      (u OR cb ! b) AND cb ! c = 0 \<and> x = emit i j (ci ! a) (ci ! b) (ci ! c)"
    unfolding in_c_list by blast
next
  assume "\<exists>b c. a < b \<and> b < c \<and> c < length cb \<and> u AND cb ! b = 0 \<and>
      (u OR cb ! b) AND cb ! c = 0 \<and> x = emit i j (ci ! a) (ci ! b) (ci ! c)"
  then obtain b c where b: "a < b" "b < c" "c < length cb" "u AND cb ! b = 0"
    and c: "(u OR cb ! b) AND cb ! c = 0" "x = emit i j (ci ! a) (ci ! b) (ci ! c)" by blast
  then have "x \<in> set (c_list emit cb ci i j a b (u OR cb ! b))"
    unfolding in_c_list by blast
  moreover from b have "b \<in> set [a + 1..<length cb]" by simp
  ultimately show "x \<in> set (b_list emit cb ci i j a u)"
    unfolding b_list_def using b(4) by (auto simp del: set_upt)
qed

lemma in_a_list:
  "x \<in> set (a_list emit cb ci i j u) \<longleftrightarrow>
     (\<exists>a b c. a < b \<and> b < c \<and> c < length cb \<and> (u OR cb ! a) AND cb ! b = 0
        \<and> ((u OR cb ! a) OR cb ! b) AND cb ! c = 0
        \<and> x = emit i j (ci ! a) (ci ! b) (ci ! c))"
proof
  assume "x \<in> set (a_list emit cb ci i j u)"
  then obtain a where "x \<in> set (b_list emit cb ci i j a (u OR cb ! a))"
    unfolding a_list_def by auto
  then show "\<exists>a b c. a < b \<and> b < c \<and> c < length cb \<and> (u OR cb ! a) AND cb ! b = 0
        \<and> ((u OR cb ! a) OR cb ! b) AND cb ! c = 0
        \<and> x = emit i j (ci ! a) (ci ! b) (ci ! c)"
    unfolding in_b_list by blast
next
  assume "\<exists>a b c. a < b \<and> b < c \<and> c < length cb \<and> (u OR cb ! a) AND cb ! b = 0
        \<and> ((u OR cb ! a) OR cb ! b) AND cb ! c = 0
        \<and> x = emit i j (ci ! a) (ci ! b) (ci ! c)"
  then obtain a b c where a: "a < b" "b < c" "c < length cb"
    and r: "(u OR cb ! a) AND cb ! b = 0" "((u OR cb ! a) OR cb ! b) AND cb ! c = 0"
      "x = emit i j (ci ! a) (ci ! b) (ci ! c)" by blast
  then have "x \<in> set (b_list emit cb ci i j a (u OR cb ! a))"
    unfolding in_b_list by blast
  moreover from a have "a \<in> set [0..<length cb]" by simp
  ultimately show "x \<in> set (a_list emit cb ci i j u)"
    unfolding a_list_def by (auto simp del: set_upt)
qed

text \<open>Positions in a strictly rising candidate list and the array indices stored there.\<close>

lemma rising_triples:
  assumes "sorted_wrt (<) (ci :: nat list)"
  shows "(\<exists>a b c. a < b \<and> b < c \<and> c < length ci \<and> Q (ci ! a) (ci ! b) (ci ! c)) \<longleftrightarrow>
         (\<exists>ka kb kc. ka < kb \<and> kb < kc \<and> ka \<in> set ci \<and> kb \<in> set ci \<and> kc \<in> set ci \<and> Q ka kb kc)"
proof
  assume "\<exists>a b c. a < b \<and> b < c \<and> c < length ci \<and> Q (ci ! a) (ci ! b) (ci ! c)"
  then obtain a b c where abc: "a < b" "b < c" "c < length ci" and q: "Q (ci ! a) (ci ! b) (ci ! c)"
    by blast
  from assms abc have "ci ! a < ci ! b" "ci ! b < ci ! c"
    by (simp_all add: sorted_wrt_nth_less)
  moreover from abc have "ci ! a \<in> set ci" "ci ! b \<in> set ci" "ci ! c \<in> set ci"
    by simp_all
  ultimately show "\<exists>ka kb kc. ka < kb \<and> kb < kc \<and> ka \<in> set ci \<and> kb \<in> set ci \<and> kc \<in> set ci \<and> Q ka kb kc"
    using q by blast
next
  assume "\<exists>ka kb kc. ka < kb \<and> kb < kc \<and> ka \<in> set ci \<and> kb \<in> set ci \<and> kc \<in> set ci \<and> Q ka kb kc"
  then obtain a b c where len: "a < length ci" "b < length ci" "c < length ci"
    and lt: "ci ! a < ci ! b" "ci ! b < ci ! c" and q: "Q (ci ! a) (ci ! b) (ci ! c)"
    by (metis in_set_conv_nth)
  have lt_back: "x < y" if "x < length ci" "y < length ci" "ci ! x < ci ! y" for x y
  proof (rule ccontr)
    assume "\<not> x < y"
    then have "y = x \<or> y < x" by auto
    with assms that show False
      using sorted_wrt_nth_less [of "(<)" ci y x] by auto
  qed
  from lt_back [OF len(1,2) lt(1)] lt_back [OF len(2,3) lt(2)] len(3) q
  show "\<exists>a b c. a < b \<and> b < c \<and> c < length ci \<and> Q (ci ! a) (ci ! b) (ci ! c)"
    by blast
qed

subsection \<open>The matches of the search\<close>

lemma loop_j_eq:
  "loop_j emit idx i matches =
     matches @ concat (map (pair_list emit idx i) [i + 1..<number_of_words idx])"
  unfolding loop_j_def
  by (rule fold_append_concat) (simp add: pair_list_def Let_def loop_a_eq split: prod.splits)

lemma search_loops_eq:
  "search_loops emit idx =
     concat (map (\<lambda>i. concat (map (pair_list emit idx i) [i + 1..<number_of_words idx]))
       [0..<number_of_words idx])"
  unfolding search_loops_def
  by (rule fold_append_concat [where acc = "[]", simplified]) (simp add: loop_j_eq)

lemma in_candidates:
  "k \<in> set (candidates idx j u) \<longleftrightarrow>
     j < k \<and> k < number_of_words idx \<and> u AND word_bitmaps idx ! k = 0"
  by (auto simp: candidates_def)

lemma candidates_rising: "sorted_wrt (<) (candidates idx j u)"
  by (simp add: candidates_def sorted_wrt_filter)

lemma short_a_list:
  assumes "length cb < 3"
  shows "a_list emit cb ci i j u = []"
proof -
  have "x \<notin> set (a_list emit cb ci i j u)" for x
    unfolding in_a_list using assms by auto
  then show ?thesis by (cases "a_list emit cb ci i j u") auto
qed

lemma in_pair_list:
  assumes wf: "index_wf idx"
  shows "x \<in> set (pair_list emit idx i j) \<longleftrightarrow>
     (\<exists>ka kb kc. j < ka \<and> ka < kb \<and> kb < kc \<and> kc < number_of_words idx \<and>
        disjoint5 (word_bitmaps idx ! i) (word_bitmaps idx ! j) (word_bitmaps idx ! ka)
          (word_bitmaps idx ! kb) (word_bitmaps idx ! kc) \<and>
        x = emit i j ka kb kc)"
proof (cases "word_bitmaps idx ! i AND word_bitmaps idx ! j = 0")
  case False
  then show ?thesis by (auto simp: pair_list_def disjoint5_def)
next
  case True
  define wb where "wb = word_bitmaps idx"
  define u where "u = wb ! i OR wb ! j"
  define ci where "ci = candidates idx j u"
  define cb where "cb = map ((!) wb) ci"
  define Q where "Q = (\<lambda>ka kb kc. (u OR wb ! ka) AND wb ! kb = 0 \<and>
     ((u OR wb ! ka) OR wb ! kb) AND wb ! kc = 0 \<and> x = emit i j ka kb kc)"
  have "pair_list emit idx i j = (if length cb < 3 then [] else a_list emit cb ci i j u)"
    using True
    by (simp add: pair_list_def find_candidates_wf [OF wf] wb_def u_def ci_def cb_def
        WORD_LENGTH_def Let_def)
  then have "pair_list emit idx i j = a_list emit cb ci i j u"
    by (simp add: short_a_list)
  then have "x \<in> set (pair_list emit idx i j) \<longleftrightarrow>
     (\<exists>a b c. a < b \<and> b < c \<and> c < length cb \<and> (u OR cb ! a) AND cb ! b = 0
        \<and> ((u OR cb ! a) OR cb ! b) AND cb ! c = 0
        \<and> x = emit i j (ci ! a) (ci ! b) (ci ! c))"
    by (simp only: in_a_list)
  also have "\<dots> \<longleftrightarrow> (\<exists>a b c. a < b \<and> b < c \<and> c < length ci \<and> Q (ci ! a) (ci ! b) (ci ! c))"
  proof -
    have "(a < b \<and> b < c \<and> c < length cb \<and> (u OR cb ! a) AND cb ! b = 0
        \<and> ((u OR cb ! a) OR cb ! b) AND cb ! c = 0
        \<and> x = emit i j (ci ! a) (ci ! b) (ci ! c))
      = (a < b \<and> b < c \<and> c < length ci \<and> Q (ci ! a) (ci ! b) (ci ! c))" for a b c
      by (auto simp: cb_def Q_def)
    then show ?thesis by (simp only:)
  qed
  also have "\<dots> \<longleftrightarrow> (\<exists>ka kb kc. ka < kb \<and> kb < kc \<and> ka \<in> set ci \<and> kb \<in> set ci \<and> kc \<in> set ci
                 \<and> Q ka kb kc)"
    unfolding ci_def by (rule rising_triples [OF candidates_rising])
  also have "\<dots> \<longleftrightarrow> (\<exists>ka kb kc. j < ka \<and> ka < kb \<and> kb < kc \<and> kc < number_of_words idx \<and>
        disjoint5 (wb ! i) (wb ! j) (wb ! ka) (wb ! kb) (wb ! kc) \<and> x = emit i j ka kb kc)"
  proof -
    have "(ka < kb \<and> kb < kc \<and> ka \<in> set ci \<and> kb \<in> set ci \<and> kc \<in> set ci \<and> Q ka kb kc)
      = (j < ka \<and> ka < kb \<and> kb < kc \<and> kc < number_of_words idx \<and>
        disjoint5 (wb ! i) (wb ! j) (wb ! ka) (wb ! kb) (wb ! kc) \<and> x = emit i j ka kb kc)"
      for ka kb kc
      using True
      by (auto simp: ci_def in_candidates Q_def u_def disjoint5_def or_and_zero wb_def)
    then show ?thesis by (simp only:)
  qed
  finally show ?thesis by (simp only: wb_def)
qed

lemma in_search_loops:
  assumes wf: "index_wf idx"
  shows "x \<in> set (search_loops emit idx) \<longleftrightarrow>
     (\<exists>i j ka kb kc. i < j \<and> j < ka \<and> ka < kb \<and> kb < kc \<and> kc < number_of_words idx \<and>
        disjoint5 (word_bitmaps idx ! i) (word_bitmaps idx ! j) (word_bitmaps idx ! ka)
          (word_bitmaps idx ! kb) (word_bitmaps idx ! kc) \<and>
        x = emit i j ka kb kc)"
proof
  assume "x \<in> set (search_loops emit idx)"
  then obtain i j where "i < j" and "x \<in> set (pair_list emit idx i j)"
    unfolding search_loops_eq by (auto simp: Suc_le_eq)
  then show "\<exists>i j ka kb kc. i < j \<and> j < ka \<and> ka < kb \<and> kb < kc \<and> kc < number_of_words idx \<and>
        disjoint5 (word_bitmaps idx ! i) (word_bitmaps idx ! j) (word_bitmaps idx ! ka)
          (word_bitmaps idx ! kb) (word_bitmaps idx ! kc) \<and>
        x = emit i j ka kb kc"
    unfolding in_pair_list [OF wf] by blast
next
  assume "\<exists>i j ka kb kc. i < j \<and> j < ka \<and> ka < kb \<and> kb < kc \<and> kc < number_of_words idx \<and>
        disjoint5 (word_bitmaps idx ! i) (word_bitmaps idx ! j) (word_bitmaps idx ! ka)
          (word_bitmaps idx ! kb) (word_bitmaps idx ! kc) \<and>
        x = emit i j ka kb kc"
  then obtain i j ka kb kc where lt: "i < j" "j < ka" "ka < kb" "kb < kc" "kc < number_of_words idx"
    and r: "disjoint5 (word_bitmaps idx ! i) (word_bitmaps idx ! j) (word_bitmaps idx ! ka)
          (word_bitmaps idx ! kb) (word_bitmaps idx ! kc)" "x = emit i j ka kb kc" by blast
  then have "x \<in> set (pair_list emit idx i j)"
    unfolding in_pair_list [OF wf] by blast
  moreover from lt have "i \<in> set [0..<number_of_words idx]" "j \<in> set [i + 1..<number_of_words idx]"
    by simp_all
  ultimately show "x \<in> set (search_loops emit idx)"
    unfolding search_loops_eq by (auto simp del: set_upt)
qed

lemma in_brute_force:
  "x \<in> set (brute_force emit idx) \<longleftrightarrow>
     (\<exists>i j ka kb kc. i < j \<and> j < ka \<and> ka < kb \<and> kb < kc \<and> kc < number_of_words idx \<and>
        disjoint5 (word_bitmaps idx ! i) (word_bitmaps idx ! j) (word_bitmaps idx ! ka)
          (word_bitmaps idx ! kb) (word_bitmaps idx ! kc) \<and>
        x = emit i j ka kb kc)"
proof
  assume "x \<in> set (brute_force emit idx)"
  then obtain i j ka kb kc where "i < j" "j < ka" "ka < kb" "kb < kc" "kc < number_of_words idx"
    "disjoint5 (word_bitmaps idx ! i) (word_bitmaps idx ! j) (word_bitmaps idx ! ka)
          (word_bitmaps idx ! kb) (word_bitmaps idx ! kc)" "x = emit i j ka kb kc"
    unfolding brute_force_def by (auto simp: Suc_le_eq)
  then show "\<exists>i j ka kb kc. i < j \<and> j < ka \<and> ka < kb \<and> kb < kc \<and> kc < number_of_words idx \<and>
        disjoint5 (word_bitmaps idx ! i) (word_bitmaps idx ! j) (word_bitmaps idx ! ka)
          (word_bitmaps idx ! kb) (word_bitmaps idx ! kc) \<and>
        x = emit i j ka kb kc"
    by blast
next
  assume "\<exists>i j ka kb kc. i < j \<and> j < ka \<and> ka < kb \<and> kb < kc \<and> kc < number_of_words idx \<and>
        disjoint5 (word_bitmaps idx ! i) (word_bitmaps idx ! j) (word_bitmaps idx ! ka)
          (word_bitmaps idx ! kb) (word_bitmaps idx ! kc) \<and>
        x = emit i j ka kb kc"
  then obtain i j ka kb kc where lt: "i < j" "j < ka" "ka < kb" "kb < kc" "kc < number_of_words idx"
    and r: "disjoint5 (word_bitmaps idx ! i) (word_bitmaps idx ! j) (word_bitmaps idx ! ka)
          (word_bitmaps idx ! kb) (word_bitmaps idx ! kc)" "x = emit i j ka kb kc" by blast
  from lt have "i \<in> set [0..<number_of_words idx]" "j \<in> set [i + 1..<number_of_words idx]"
    "ka \<in> set [j + 1..<number_of_words idx]" "kb \<in> set [ka + 1..<number_of_words idx]"
    "kc \<in> set [kb + 1..<number_of_words idx]"
    by simp_all
  with r show "x \<in> set (brute_force emit idx)"
    unfolding brute_force_def by (simp del: set_upt) blast
qed

subsection \<open>The entries of the joined array\<close>

lemma find_SomeD:
  assumes "find P xs = Some x"
  shows "P x" and "x \<in> set xs"
  using assms by (auto simp: find_Some_iff)

lemma index_entry:
  assumes built: "build_index word_list = Inr idx" and k: "k < number_of_words idx"
  shows "bitcount (word_bitmaps idx ! k) = WORD_LENGTH"
    and "find (\<lambda>w. encodes w (word_bitmaps idx ! k)) word_list = Some (unique_words idx ! k)"
    and "\<exists>i<13. list_of (word_bitmaps idx ! k) = Some i"
proof -
  from built obtain st where ok: "buckets_ok word_list st" and idx: "idx = combine st"
    by (rule build_indexD)
  from k idx have "k < number_of_words (combine st)" by simp
  from combine_entry [OF ok this] obtain i where i: "i < 13"
    and pos: "k - word_bitmaps_boundaries (combine st) ! i < length (word_bitmaps_letters st ! i)"
    and b: "word_bitmaps (combine st) ! k =
           word_bitmaps_letters st ! i ! (k - word_bitmaps_boundaries (combine st) ! i)"
    and w: "unique_words (combine st) ! k =
           unique_words_letters st ! i ! (k - word_bitmaps_boundaries (combine st) ! i)"
    by blast
  from ok i have "list_ok word_list i (word_bitmaps_letters st ! i) (unique_words_letters st ! i)"
    by (simp add: buckets_ok_def)
  with pos have "list_of (word_bitmaps (combine st) ! k) = Some i"
    and "bitcount (word_bitmaps (combine st) ! k) = WORD_LENGTH"
    and "find (\<lambda>w. encodes w (word_bitmaps (combine st) ! k)) word_list
           = Some (unique_words (combine st) ! k)"
    unfolding b w by (simp_all add: list_ok_def)
  with i idx show "bitcount (word_bitmaps idx ! k) = WORD_LENGTH"
    and "find (\<lambda>w. encodes w (word_bitmaps idx ! k)) word_list = Some (unique_words idx ! k)"
    and "\<exists>i<13. list_of (word_bitmaps idx ! k) = Some i"
    by auto
qed

lemma index_encodes:
  assumes "build_index word_list = Inr idx" and "k < number_of_words idx"
  shows "encodes (unique_words idx ! k) (word_bitmaps idx ! k)"
    and "unique_words idx ! k \<in> set word_list"
  using find_SomeD [OF index_entry(2) [OF assms]] by simp_all

lemma distinct_concat_key:
  assumes "\<forall>i<length xss. distinct (xss ! i) \<and> (\<forall>x\<in>set (xss ! i). key x = i)"
  shows "distinct (concat xss)"
  using assms
proof (induction xss rule: rev_induct)
  case Nil
  then show ?case by simp
next
  case (snoc xs xss)
  have old: "\<forall>i<length xss. distinct (xss ! i) \<and> (\<forall>x\<in>set (xss ! i). key x = i)"
  proof (intro allI impI)
    fix i assume i: "i < length xss"
    with snoc.prems have "distinct ((xss @ [xs]) ! i) \<and> (\<forall>x\<in>set ((xss @ [xs]) ! i). key x = i)"
      by simp
    with i show "distinct (xss ! i) \<and> (\<forall>x\<in>set (xss ! i). key x = i)"
      by (simp add: nth_append)
  qed
  from snoc.prems have new: "distinct xs" "\<forall>x\<in>set xs. key x = length xss"
    using nth_append_length [of xss xs "[]"] by (auto simp: nth_append)
  have "key x < length xss" if "x \<in> set (concat xss)" for x
  proof -
    from that obtain ys where "ys \<in> set xss" "x \<in> set ys" by auto
    then obtain i where "i < length xss" "xss ! i = ys" by (auto simp: in_set_conv_nth)
    with old \<open>x \<in> set ys\<close> show ?thesis by auto
  qed
  with new have "set (concat xss) \<inter> set xs = {}" by fastforce
  with snoc.IH [OF old] new show ?case by simp
qed

lemma index_distinct:
  assumes built: "build_index word_list = Inr idx"
  shows "distinct (word_bitmaps idx)"
proof -
  from built obtain st where ok: "buckets_ok word_list st" and idx: "idx = combine st"
    by (rule build_indexD)
  have "\<forall>i<length (word_bitmaps_letters st). distinct (word_bitmaps_letters st ! i) \<and>
          (\<forall>x\<in>set (word_bitmaps_letters st ! i). the (list_of x) = i)"
    using ok by (auto simp: buckets_ok_def list_ok_def in_set_conv_nth)
  then have "distinct (concat (word_bitmaps_letters st))"
    by (rule distinct_concat_key)
  then show ?thesis by (simp add: idx combine_ok_eq [OF ok])
qed

text \<open>
  Which bitmaps reach the array: those of the input words of length five with five bits
  set at which the loop over the letter lists stops somewhere.
\<close>

lemma index_bitmaps:
  assumes built: "build_index word_list = Inr idx"
  shows "set (word_bitmaps idx) =
     {m. (\<exists>w\<in>set word_list. encodes w m) \<and> bitcount m = WORD_LENGTH \<and> list_of m \<noteq> None}"
proof (intro set_eqI iffI)
  fix m assume "m \<in> set (word_bitmaps idx)"
  then obtain k where k: "k < length (word_bitmaps idx)" and m: "word_bitmaps idx ! k = m"
    by (auto simp: in_set_conv_nth)
  from build_index_wf [OF built] k have k': "k < number_of_words idx"
    by (simp add: index_wf_def)
  from index_entry [OF built k'] index_encodes [OF built k'] m
  show "m \<in> {m. (\<exists>w\<in>set word_list. encodes w m) \<and> bitcount m = WORD_LENGTH \<and> list_of m \<noteq> None}"
    by auto
next
  fix m
  assume "m \<in> {m. (\<exists>w\<in>set word_list. encodes w m) \<and> bitcount m = WORD_LENGTH \<and> list_of m \<noteq> None}"
  then obtain w i where w: "w \<in> set word_list" "encodes w m" "bitcount m = WORD_LENGTH"
    "list_of m = Some i" by auto
  from built obtain st where ok: "buckets_ok word_list st" and idx: "idx = combine st"
    by (rule build_indexD)
  from w(4) have i: "i < 13" by (rule list_of_SomeD)
  with ok have "list_ok word_list i (word_bitmaps_letters st ! i) (unique_words_letters st ! i)"
    by (simp add: buckets_ok_def)
  with w have "m \<in> set (word_bitmaps_letters st ! i)"
    unfolding list_ok_def by blast
  moreover from ok i have "word_bitmaps_letters st ! i \<in> set (word_bitmaps_letters st)"
    by (simp add: buckets_ok_def)
  ultimately have "m \<in> set (concat (word_bitmaps_letters st))" by auto
  then show "m \<in> set (word_bitmaps idx)" by (simp add: idx combine_ok_eq [OF ok])
qed

text \<open>A section of the word array is the letter list it was copied from.\<close>

lemma index_section_words:
  assumes built: "build_index word_list = Inr idx" and i: "i < 13"
  shows "subseq (take (word_bitmaps_boundaries idx ! Suc i - word_bitmaps_boundaries idx ! i)
                   (drop (word_bitmaps_boundaries idx ! i) (unique_words idx))) word_list"
proof -
  from built obtain st where ok: "buckets_ok word_list st" and idx: "idx = combine st"
    by (rule build_indexD)
  let ?U = "unique_words_letters st" and ?B = "word_bitmaps_letters st"
  from ok i have iU: "i < length ?U" and iB: "i < length ?B" by (simp_all add: buckets_ok_def)
  from ok i have lenUB: "length (?U ! i) = length (?B ! i)"
    and sub: "subseq (?U ! i) word_list"
    by (simp_all add: buckets_ok_def list_ok_def)
  from i have b: "word_bitmaps_boundaries idx ! i = length (concat (take i ?U))"
    using offsets_same [OF ok, of i] by (simp add: idx combine_ok_eq [OF ok])
  from i iB have b': "word_bitmaps_boundaries idx ! Suc i =
      length (concat (take i ?U)) + length (?U ! i)"
    using offsets_same [OF ok, of i] lenUB
    by (simp add: idx combine_ok_eq [OF ok] take_Suc_conv_app_nth)
  from iU have "?U = take i ?U @ ?U ! i # drop (Suc i) ?U"
    by (rule id_take_nth_drop)
  then have "concat ?U = concat (take i ?U) @ ?U ! i @ concat (drop (Suc i) ?U)"
    by (metis concat.simps(2) concat_append)
  then have "take (length (?U ! i)) (drop (length (concat (take i ?U))) (concat ?U)) = ?U ! i"
    by simp
  moreover have "unique_words idx = concat ?U"
    by (simp add: idx combine_ok_eq [OF ok])
  ultimately show ?thesis
    unfolding b b' using sub by simp
qed

text \<open>The matches are the index tuples of the trace, read in the word array.\<close>

lemma map_concat_map: "map f (concat (map h xs)) = concat (map (\<lambda>x. map f (h x)) xs)"
  by (simp add: map_concat comp_def)

lemma c_list_map:
  "c_list (\<lambda>i j ka kb kc. f (g i j ka kb kc)) cb ci i j a b u = map f (c_list g cb ci i j a b u)"
  unfolding c_list_def map_concat_map by (intro arg_cong [where f = concat] map_cong refl) simp

lemma b_list_map:
  "b_list (\<lambda>i j ka kb kc. f (g i j ka kb kc)) cb ci i j a u = map f (b_list g cb ci i j a u)"
  unfolding b_list_def map_concat_map
  by (intro arg_cong [where f = concat] map_cong refl) (simp add: c_list_map)

lemma a_list_map:
  "a_list (\<lambda>i j ka kb kc. f (g i j ka kb kc)) cb ci i j u = map f (a_list g cb ci i j u)"
  unfolding a_list_def map_concat_map
  by (intro arg_cong [where f = concat] map_cong refl) (simp add: b_list_map)

lemma pair_list_map:
  "pair_list (\<lambda>i j ka kb kc. f (g i j ka kb kc)) idx i j = map f (pair_list g idx i j)"
  by (simp add: pair_list_def Let_def a_list_map split: prod.splits)

lemma search_loops_map:
  "search_loops (\<lambda>i j ka kb kc. f (g i j ka kb kc)) idx = map f (search_loops g idx)"
  unfolding search_loops_eq map_concat_map
  by (intro arg_cong [where f = concat] map_cong refl) (simp add: pair_list_map)

lemma search_trace:
  "search idx = map (map ((!) (unique_words idx))) (search_indices idx)"
proof -
  have "match_words (unique_words idx) =
      (\<lambda>i j ka kb kc. map ((!) (unique_words idx)) (index_tuple i j ka kb kc))"
    by (intro ext) (simp add: match_words_def index_tuple_def)
  then show ?thesis
    by (simp only: search_def search_indices_def search_loops_map)
qed

subsection \<open>A worked example\<close>

lemma example_built: "build_index example_words = Inr example_index"
  unfolding example_words_def example_index_def by code_simp

lemma example_search_indices: "search_indices example_index = [[0, 1, 2, 3, 4]]"
  unfolding example_index_def by code_simp

lemma example_search:
  "search example_index = [[''vibex'', ''waltz'', ''fjord'', ''nymph'', ''gucks'']]"
  unfolding search_trace example_search_indices by (simp add: example_index_def)

subsection \<open>No match is pushed twice\<close>

lemma distinct_concat_map:
  assumes "distinct xs"
    and "\<And>x. x \<in> set xs \<Longrightarrow> distinct (h x)"
    and "\<And>x y t. x \<in> set xs \<Longrightarrow> y \<in> set xs \<Longrightarrow> t \<in> set (h x) \<Longrightarrow> t \<in> set (h y) \<Longrightarrow> x = y"
  shows "distinct (concat (map h xs))"
  using assms
proof (induction xs)
  case Nil
  then show ?case by simp
next
  case (Cons x xs)
  have "set (h x) \<inter> set (concat (map h xs)) = {}"
  proof (rule ccontr)
    assume "set (h x) \<inter> set (concat (map h xs)) \<noteq> {}"
    then obtain t y where "t \<in> set (h x)" "y \<in> set xs" "t \<in> set (h y)" by auto
    with Cons.prems(3) [of x y t] have "x = y" by simp
    with \<open>y \<in> set xs\<close> Cons.prems(1) show False by simp
  qed
  moreover have "distinct (concat (map h xs))"
    using Cons.prems by (intro Cons.IH) auto
  ultimately show ?case using Cons.prems(2) [of x] by simp
qed

lemma distinct_c_list:
  assumes "distinct ci" and "length cb = length ci"
  shows "distinct (c_list index_tuple cb ci i j a b u)"
  unfolding c_list_def
proof (rule distinct_concat_map)
  show "distinct [b + 1..<length cb]" by simp
  show "distinct (if u AND cb ! c \<noteq> 0 then []
      else [index_tuple i j (ci ! a) (ci ! b) (ci ! c)])" for c
    by simp
  fix c c' t
  assume "c \<in> set [b + 1..<length cb]" "c' \<in> set [b + 1..<length cb]"
    and "t \<in> set (if u AND cb ! c \<noteq> 0 then [] else [index_tuple i j (ci ! a) (ci ! b) (ci ! c)])"
    and "t \<in> set (if u AND cb ! c' \<noteq> 0 then [] else [index_tuple i j (ci ! a) (ci ! b) (ci ! c')])"
  then have "c < length ci" "c' < length ci" "ci ! c = ci ! c'"
    using assms(2) by (auto simp: index_tuple_def split: if_splits)
  with assms(1) show "c = c'" by (simp add: nth_eq_iff_index_eq)
qed

lemma distinct_b_list:
  assumes "distinct ci" and "length cb = length ci"
  shows "distinct (b_list index_tuple cb ci i j a u)"
  unfolding b_list_def
proof (rule distinct_concat_map)
  show "distinct [a + 1..<length cb]" by simp
  show "distinct (if u AND cb ! b \<noteq> 0 then []
      else c_list index_tuple cb ci i j a b (u OR cb ! b))" for b
    using distinct_c_list [OF assms] by simp
  fix b b' t
  assume "b \<in> set [a + 1..<length cb]" "b' \<in> set [a + 1..<length cb]"
    and "t \<in> set (if u AND cb ! b \<noteq> 0 then [] else c_list index_tuple cb ci i j a b (u OR cb ! b))"
    and "t \<in> set (if u AND cb ! b' \<noteq> 0 then [] else c_list index_tuple cb ci i j a b' (u OR cb ! b'))"
  then have "b < length ci" "b' < length ci" "ci ! b = ci ! b'"
    using assms(2) by (auto simp: in_c_list index_tuple_def split: if_splits)
  with assms(1) show "b = b'" by (simp add: nth_eq_iff_index_eq)
qed

lemma distinct_a_list:
  assumes "distinct ci" and "length cb = length ci"
  shows "distinct (a_list index_tuple cb ci i j u)"
  unfolding a_list_def
proof (rule distinct_concat_map)
  show "distinct [0..<length cb]" by simp
  show "distinct (b_list index_tuple cb ci i j a (u OR cb ! a))" for a
    by (rule distinct_b_list [OF assms])
  fix a a' t
  assume "a \<in> set [0..<length cb]" "a' \<in> set [0..<length cb]"
    and "t \<in> set (b_list index_tuple cb ci i j a (u OR cb ! a))"
    and "t \<in> set (b_list index_tuple cb ci i j a' (u OR cb ! a'))"
  then have "a < length ci" "a' < length ci" "ci ! a = ci ! a'"
    using assms(2) by (auto simp: in_b_list index_tuple_def)
  with assms(1) show "a = a'" by (simp add: nth_eq_iff_index_eq)
qed

lemma distinct_pair_list:
  assumes wf: "index_wf idx"
  shows "distinct (pair_list index_tuple idx i j)"
proof -
  have "distinct (candidates idx j u)" for u
    using candidates_rising [of idx j u] by (simp add: strict_sorted_iff)
  then show ?thesis
    by (simp add: pair_list_def Let_def find_candidates_wf [OF wf] distinct_a_list)
qed

lemma distinct_search_indices:
  assumes wf: "index_wf idx"
  shows "distinct (search_indices idx)"
  unfolding search_indices_def search_loops_eq
proof (rule distinct_concat_map)
  show "distinct [0..<number_of_words idx]" by simp
  show "distinct (concat (map (pair_list index_tuple idx i) [i + 1..<number_of_words idx]))" for i
  proof (rule distinct_concat_map)
    show "distinct [i + 1..<number_of_words idx]" by simp
    show "distinct (pair_list index_tuple idx i j)" for j
      by (rule distinct_pair_list [OF wf])
    fix j j' t
    assume "t \<in> set (pair_list index_tuple idx i j)" "t \<in> set (pair_list index_tuple idx i j')"
    then show "j = j'"
      unfolding in_pair_list [OF wf] by (auto simp: index_tuple_def)
  qed
  fix i i' t
  assume "t \<in> set (concat (map (pair_list index_tuple idx i) [i + 1..<number_of_words idx]))"
    and "t \<in> set (concat (map (pair_list index_tuple idx i') [i' + 1..<number_of_words idx]))"
  then obtain j j' where "t \<in> set (pair_list index_tuple idx i j)"
    "t \<in> set (pair_list index_tuple idx i' j')" by auto
  then show "i = i'"
    unfolding in_pair_list [OF wf] by (auto simp: index_tuple_def)
qed

subsection \<open>Shift amounts\<close>

lemma char_int_a: "char_int CHR ''a'' = 97"
  by (simp add: char_int_def)

lemma char_int_bounds: "- 128 \<le> char_int c" "char_int c < 128"
proof -
  have "(of_char c :: nat) < 256" by simp
  then show "- 128 \<le> char_int c" "char_int c < 128"
    unfolding char_int_def by (simp_all del: nat_of_char_less_256 of_nat_of_char)
qed

lemma shift_amount_upper: "shift_amount c < 32"
  using char_int_bounds [of c] by (simp add: shift_amount_def char_int_a)

lemma shift_amount_range:
  "0 \<le> shift_amount c \<and> shift_amount c < 32 \<longleftrightarrow>
     97 \<le> (of_char c :: nat) \<and> (of_char c :: nat) < 128"
proof -
  have "(of_char c :: nat) < 256" by simp
  then show ?thesis
    unfolding shift_amount_def char_int_a char_int_def
    by (simp del: nat_of_char_less_256 of_nat_of_char)
qed

lemma set_letter_Inl:
  "set_letter bitmap c = Inl e \<longleftrightarrow> shift_amount c < 0 \<and> e = Undefined_shift (shift_amount c)"
  using shift_amount_upper [of c] by (auto simp: set_letter_def shl1_def)

lemma set_letter_Inr:
  "(\<exists>b. set_letter bitmap c = Inr b) \<longleftrightarrow> 0 \<le> shift_amount c"
  using shift_amount_upper [of c] by (auto simp: set_letter_def shl1_def)

lemma accumulate_bitmap_defined:
  "(\<exists>m. accumulate_bitmap w bitmap = Inr m) \<longleftrightarrow> (\<forall>c\<in>set w. 0 \<le> shift_amount c)"
proof (induction w arbitrary: bitmap)
  case Nil
  then show ?case by simp
next
  case (Cons d w)
  show ?case
  proof (cases "set_letter bitmap d")
    case (Inl e)
    then have "shift_amount d < 0" by (simp add: set_letter_Inl)
    with Inl show ?thesis by simp
  next
    case (Inr b)
    then have "0 \<le> shift_amount d" using set_letter_Inr [of bitmap d] by blast
    with Inr Cons.IH [of b] show ?thesis by simp
  qed
qed

text \<open>An undefined run of the encoder stops at the first character below \<open>'a'\<close>.\<close>

lemma accumulate_bitmap_first_bad:
  assumes "\<forall>c'\<in>set pre. 0 \<le> shift_amount c'" and "shift_amount c < 0"
  shows "accumulate_bitmap (pre @ c # post) bitmap = Inl (Undefined_shift (shift_amount c))"
  using assms(1)
proof (induction pre arbitrary: bitmap)
  case Nil
  from assms(2) have "set_letter bitmap c = Inl (Undefined_shift (shift_amount c))"
    by (simp add: set_letter_Inl)
  then show ?case by simp
next
  case (Cons d pre)
  then have "0 \<le> shift_amount d" by simp
  then obtain b where "set_letter bitmap d = Inr b"
    using set_letter_Inr [of bitmap d] by blast
  with Cons show ?case by simp
qed

lemma accumulate_bitmap_Inl:
  "accumulate_bitmap w bitmap = Inl e \<longleftrightarrow>
     (\<exists>pre c post. w = pre @ c # post \<and> (\<forall>c'\<in>set pre. 0 \<le> shift_amount c') \<and>
        shift_amount c < 0 \<and> e = Undefined_shift (shift_amount c))"
proof
  assume bad: "accumulate_bitmap w bitmap = Inl e"
  then have "\<not> (\<exists>m. accumulate_bitmap w bitmap = Inr m)" by simp
  then have "\<exists>c\<in>set w. \<not> 0 \<le> shift_amount c"
    unfolding accumulate_bitmap_defined by blast
  from split_list_first_prop [OF this] obtain pre c post where w: "w = pre @ c # post"
    and c: "\<not> 0 \<le> shift_amount c" and pre: "\<forall>c'\<in>set pre. \<not> \<not> 0 \<le> shift_amount c'"
    by blast
  from pre have pre': "\<forall>c'\<in>set pre. 0 \<le> shift_amount c'" by simp
  from c have c': "shift_amount c < 0" by simp
  from accumulate_bitmap_first_bad [OF pre' c', of post bitmap] bad w
  have "e = Undefined_shift (shift_amount c)" by simp
  with w pre' c' show "\<exists>pre c post. w = pre @ c # post \<and>
      (\<forall>c'\<in>set pre. 0 \<le> shift_amount c') \<and>
      shift_amount c < 0 \<and> e = Undefined_shift (shift_amount c)" by blast
next
  assume "\<exists>pre c post. w = pre @ c # post \<and> (\<forall>c'\<in>set pre. 0 \<le> shift_amount c') \<and>
        shift_amount c < 0 \<and> e = Undefined_shift (shift_amount c)"
  then obtain pre c post where "w = pre @ c # post" "\<forall>c'\<in>set pre. 0 \<le> shift_amount c'"
    "shift_amount c < 0" "e = Undefined_shift (shift_amount c)" by blast
  with accumulate_bitmap_first_bad [of pre c post bitmap]
  show "accumulate_bitmap w bitmap = Inl e" by simp
qed

lemma hello_encoding: "accumulate_bitmap ''hello'' 0 = Inr 18576 \<and> bitcount 18576 = 4"
  by code_simp

lemma audio_undefined:
  "length ''AUDIO'' = WORD_LENGTH \<and>
   shift_amount CHR ''A'' = - 32 \<and>
   process_word ''AUDIO'' empty_buckets = Inl (Undefined_shift (- 32)) \<and>
   run [''AUDIO''] = Inl (Undefined_shift (- 32))"
proof -
  have s: "shift_amount CHR ''A'' = - 32"
    by (simp add: shift_amount_def char_int_def)
  then have "accumulate_bitmap ([] @ CHR ''A'' # ''UDIO'') 0 =
      Inl (Undefined_shift (shift_amount CHR ''A''))"
    by (intro accumulate_bitmap_first_bad) simp_all
  with s have a: "accumulate_bitmap ''AUDIO'' 0 = Inl (Undefined_shift (- 32))"
    by simp
  have l: "length ''AUDIO'' = WORD_LENGTH" by (simp add: WORD_LENGTH_def)
  from a l have p: "process_word ''AUDIO'' empty_buckets = Inl (Undefined_shift (- 32))"
    by (simp add: process_word_def)
  then have "run [''AUDIO''] = Inl (Undefined_shift (- 32))"
    by (simp add: run_def build_index_def)
  with s l p show ?thesis by blast
qed

subsection \<open>Small inputs\<close>

lemma few_words_no_match:
  assumes "build_index word_list = Inr idx" and "number_of_words idx < 5"
  shows "search idx = []"
proof -
  from assms(1) have wf: "index_wf idx" by (rule build_index_wf)
  have "x \<notin> set (search idx)" for x
  proof
    assume "x \<in> set (search idx)"
    then obtain i j ka kb kc :: nat
      where "i < j" "j < ka" "ka < kb" "kb < kc" "kc < number_of_words idx"
      unfolding search_def in_search_loops [OF wf] by blast
    with assms(2) show False by simp
  qed
  then show ?thesis by (cases "search idx") auto
qed

lemma number_of_words_le:
  assumes "build_index word_list = Inr idx"
  shows "number_of_words idx \<le> length word_list"
proof -
  let ?f = "\<lambda>w. case accumulate_bitmap w 0 of Inr m \<Rightarrow> m | Inl e \<Rightarrow> 0"
  have "set (word_bitmaps idx) \<subseteq> ?f ` set word_list"
  proof
    fix m assume "m \<in> set (word_bitmaps idx)"
    then obtain w where "w \<in> set word_list" "encodes w m"
      unfolding index_bitmaps [OF assms] by blast
    then have "?f w = m" by (simp add: encodes_def)
    with \<open>w \<in> set word_list\<close> show "m \<in> ?f ` set word_list" by blast
  qed
  then have "card (set (word_bitmaps idx)) \<le> card (?f ` set word_list)"
    by (intro card_mono) simp_all
  also have "\<dots> \<le> card (set word_list)" by (intro card_image_le) simp
  also have "\<dots> \<le> length word_list" by (rule card_length)
  finally show ?thesis
    using index_distinct [OF assms] build_index_wf [OF assms]
    by (simp add: distinct_card index_wf_def)
qed

lemma tiny_built: "build_index tiny_words = Inr tiny_index"
  unfolding tiny_words_def tiny_index_def by code_simp

lemma empty_built: "\<exists>idx. build_index [] = Inr idx"
  by (simp add: build_index_def)

subsection \<open>What a run depends on\<close>

lemma five_rising:
  assumes "finite (I :: nat set)" and "card I = 5"
  obtains i j ka kb kc where "I = {i, j, ka, kb, kc}" "i < j" "j < ka" "ka < kb" "kb < kc"
proof -
  from assms(1) obtain l where l: "sorted_wrt (<) l" "set l = I" "length l = card I"
    by (rule finite_set_strict_sorted)
  from l(3) assms(2) obtain i j ka kb kc where "l = [i, j, ka, kb, kc]"
    by (auto simp: eval_nat_numeral length_Suc_conv)
  with l(1,2) that [of i j ka kb kc] show thesis by auto
qed

lemma search_letter_sets:
  assumes built: "build_index word_list = Inr idx"
  shows "match_letter_sets ` set (search idx) =
           (\<lambda>S. Inr ` S) ` compatible5 (set (word_bitmaps idx))"
proof -
  from built have wf: "index_wf idx" by (rule build_index_wf)
  let ?n = "number_of_words idx"
  let ?m = "\<lambda>k. word_bitmaps idx ! k"
  from wf have len: "length (word_bitmaps idx) = ?n" by (simp add: index_wf_def)
  note dist = index_distinct [OF built]
  have neq: "?m p \<noteq> ?m q" if "p < ?n" "q < ?n" "p \<noteq> q" for p q
    using that dist len by (simp add: nth_eq_iff_index_eq)
  have enc: "accumulate_bitmap (unique_words idx ! k) 0 = Inr (?m k)" if "k < ?n" for k
    using index_encodes(1) [OF built that] by (simp add: encodes_def)
  have sets: "match_letter_sets (match_words (unique_words idx) i j ka kb kc) =
      Inr ` {?m i, ?m j, ?m ka, ?m kb, ?m kc}"
    if "i < ?n" "j < ?n" "ka < ?n" "kb < ?n" "kc < ?n" for i j ka kb kc
    using that by (simp add: match_letter_sets_def match_words_def enc)
  show ?thesis
  proof (intro set_eqI iffI)
    fix L assume "L \<in> match_letter_sets ` set (search idx)"
    then obtain x where x: "x \<in> set (search idx)" and L: "L = match_letter_sets x" by blast
    from x obtain i j ka kb kc
      where lt: "i < j" "j < ka" "ka < kb" "kb < kc" "kc < ?n"
        and dis: "disjoint5 (?m i) (?m j) (?m ka) (?m kb) (?m kc)"
        and xe: "x = match_words (unique_words idx) i j ka kb kc"
      unfolding search_def in_search_loops [OF wf] by blast
    from lt have bound: "i < ?n" "j < ?n" "ka < ?n" "kb < ?n" "kc < ?n" by simp_all
    let ?S = "{?m i, ?m j, ?m ka, ?m kb, ?m kc}"
    from bound len have sub: "?S \<subseteq> set (word_bitmaps idx)" by simp
    from lt bound have "distinct [?m i, ?m j, ?m ka, ?m kb, ?m kc]"
      using neq by simp
    then have "card (set [?m i, ?m j, ?m ka, ?m kb, ?m kc]) = length [?m i, ?m j, ?m ka, ?m kb, ?m kc]"
      by (rule distinct_card)
    then have card: "card ?S = 5" by simp
    from dis have pair: "\<forall>x\<in>?S. \<forall>y\<in>?S. x \<noteq> y \<longrightarrow> x AND y = 0"
      by (auto simp: disjoint5_def and.commute)
    from sub card pair have "?S \<in> compatible5 (set (word_bitmaps idx))"
      unfolding compatible5_def by blast
    moreover from L xe sets [OF bound] have "L = Inr ` ?S" by simp
    ultimately show "L \<in> (\<lambda>S. Inr ` S) ` compatible5 (set (word_bitmaps idx))" by blast
  next
    fix L :: "(error + u32) set"
    assume "L \<in> (\<lambda>S. Inr ` S) ` compatible5 (set (word_bitmaps idx))"
    then obtain S where L: "L = Inr ` S" and sub: "S \<subseteq> set (word_bitmaps idx)"
      and card: "card S = 5" and pair: "\<forall>x\<in>S. \<forall>y\<in>S. x \<noteq> y \<longrightarrow> x AND y = 0"
      unfolding compatible5_def by blast
    define I where "I = {k. k < ?n \<and> ?m k \<in> S}"
    have fin: "finite I" unfolding I_def by simp
    have img: "?m ` I = S"
    proof (intro set_eqI iffI)
      fix x assume "x \<in> ?m ` I" then show "x \<in> S" by (auto simp: I_def)
    next
      fix x assume "x \<in> S"
      with sub have "x \<in> set (word_bitmaps idx)" by blast
      then obtain k where "k < length (word_bitmaps idx)" "?m k = x"
        unfolding in_set_conv_nth by blast
      with \<open>x \<in> S\<close> len show "x \<in> ?m ` I" by (auto simp: I_def)
    qed
    have "inj_on ?m I"
      by (rule inj_onI) (use neq in \<open>auto simp: I_def\<close>)
    then have "card (?m ` I) = card I" by (rule card_image)
    with img card have "card I = 5" by simp
    from five_rising [OF fin this] obtain i j ka kb kc
      where I: "I = {i, j, ka, kb, kc}" and lt: "i < j" "j < ka" "ka < kb" "kb < kc" by blast
    from I have mem: "i \<in> I" "j \<in> I" "ka \<in> I" "kb \<in> I" "kc \<in> I" by simp_all
    then have bound: "i < ?n" "j < ?n" "ka < ?n" "kb < ?n" "kc < ?n"
      and inS: "?m i \<in> S" "?m j \<in> S" "?m ka \<in> S" "?m kb \<in> S" "?m kc \<in> S"
      by (simp_all add: I_def)
    from lt bound have "?m i \<noteq> ?m j" "?m i \<noteq> ?m ka" "?m i \<noteq> ?m kb" "?m i \<noteq> ?m kc"
      "?m j \<noteq> ?m ka" "?m j \<noteq> ?m kb" "?m j \<noteq> ?m kc" "?m ka \<noteq> ?m kb" "?m ka \<noteq> ?m kc"
      "?m kb \<noteq> ?m kc"
      using neq by simp_all
    with inS pair have dis: "disjoint5 (?m i) (?m j) (?m ka) (?m kb) (?m kc)"
      unfolding disjoint5_def by blast
    from lt bound(5) dis
    have "match_words (unique_words idx) i j ka kb kc \<in> set (search idx)"
      unfolding search_def in_search_loops [OF wf] by blast
    moreover have "match_letter_sets (match_words (unique_words idx) i j ka kb kc) = L"
    proof -
      have "{?m i, ?m j, ?m ka, ?m kb, ?m kc} = ?m ` I" unfolding I by simp
      with img L sets [OF bound] show ?thesis by simp
    qed
    ultimately show "L \<in> match_letter_sets ` set (search idx)" by blast
  qed
qed

lemma build_index_defined:
  "(\<exists>idx. build_index word_list = Inr idx) \<longleftrightarrow>
     (\<forall>w\<in>set word_list. length w = WORD_LENGTH \<longrightarrow> \<not> isl (accumulate_bitmap w 0))"
proof -
  have "(\<exists>idx. build_index word_list = Inr idx) \<longleftrightarrow>
      (\<exists>st. filter_words word_list empty_buckets = Inr st)"
    by (cases "filter_words word_list empty_buckets") (simp_all add: build_index_def)
  then show ?thesis by (simp only: filter_words_defined)
qed

lemma same_words_same_bitmaps:
  assumes same: "set word_list' = set word_list" and built: "build_index word_list = Inr idx"
  obtains idx' where "build_index word_list' = Inr idx'"
    and "set (word_bitmaps idx') = set (word_bitmaps idx)"
proof -
  from built have "\<exists>idx. build_index word_list = Inr idx" by blast
  then have "\<exists>idx'. build_index word_list' = Inr idx'"
    unfolding build_index_defined same .
  then obtain idx' where built': "build_index word_list' = Inr idx'" by blast
  have "set (word_bitmaps idx') = set (word_bitmaps idx)"
    unfolding index_bitmaps [OF built] index_bitmaps [OF built'] same ..
  with built' that show thesis by blast
qed

lemma search_loops_words_irrelevant:
  "search_loops emit (idx\<lparr>unique_words := uw\<rparr>) = search_loops emit idx"
proof -
  have "find_candidates (idx\<lparr>unique_words := uw\<rparr>) j u = find_candidates idx j u" for j u
    by (simp add: find_candidates_def cong: if_cong)
  then have "loop_j emit (idx\<lparr>unique_words := uw\<rparr>) i = loop_j emit idx i" for i
    by (simp add: loop_j_def Let_def cong: if_cong)
  then have "loop_j emit (idx\<lparr>unique_words := uw\<rparr>) = loop_j emit idx"
    by (intro ext) simp
  then show ?thesis by (simp add: search_loops_def)
qed

lemma example_permuted_built:
  "build_index example_words_permuted =
     Inr (example_index\<lparr>unique_words := [''vibex'', ''waltz'', ''fjord'', ''nymph'', ''gucsk'']\<rparr>)"
  unfolding example_words_permuted_def example_index_def by code_simp

lemma example_run: "run example_words = Inr [[''vibex'', ''waltz'', ''fjord'', ''nymph'', ''gucks'']]"
  by (simp add: run_def example_built example_search)

lemma example_permuted_run:
  "run example_words_permuted = Inr [[''vibex'', ''waltz'', ''fjord'', ''nymph'', ''gucsk'']]"
proof -
  have "search_indices (example_index\<lparr>unique_words := [''vibex'', ''waltz'', ''fjord'', ''nymph'', ''gucsk'']\<rparr>)
        = [[0, 1, 2, 3, 4]]"
    unfolding search_indices_def search_loops_words_irrelevant
    using example_search_indices by (simp only: search_indices_def)
  then show ?thesis
    by (simp add: run_def example_permuted_built search_trace)
qed

lemma swap_built: "build_index swap_words = Inr swap_index"
  unfolding swap_words_def swap_index_def by code_simp

lemma swap_permuted_built: "build_index swap_words_permuted = Inr swap_index_permuted"
  unfolding swap_words_permuted_def swap_index_permuted_def by code_simp

lemma swap_search_indices: "search_indices swap_index = [[0, 1, 2, 3, 4]]"
  unfolding swap_index_def by code_simp

lemma swap_permuted_search_indices: "search_indices swap_index_permuted = [[0, 1, 2, 3, 4]]"
  unfolding swap_index_permuted_def by code_simp

lemma swap_run: "run swap_words = Inr [[''wxyze'', ''norst'', ''adhil'', ''bcfgj'', ''kmpqv'']]"
  by (simp add: run_def swap_built search_trace swap_search_indices) (simp add: swap_index_def)

lemma swap_permuted_run:
  "run swap_words_permuted = Inr [[''wxyze'', ''norst'', ''adhil'', ''kmpqv'', ''bcfgj'']]"
  by (simp add: run_def swap_permuted_built search_trace swap_permuted_search_indices)
     (simp add: swap_index_permuted_def)

lemma swap_encodings_distinct:
  "distinct (map (\<lambda>w. accumulate_bitmap w 0) swap_words)"
  unfolding swap_words_def by code_simp

text \<open>
  Without two input words of the same letters, the words of a match are the input words
  of its letter sets.
\<close>

lemma match_words_of_letter_sets:
  assumes built: "build_index word_list = Inr idx"
    and inj: "inj_on (\<lambda>w. accumulate_bitmap w 0) {w \<in> set word_list. length w = WORD_LENGTH}"
    and x: "x \<in> set (search idx)"
  shows "set x = {w \<in> set word_list. length w = WORD_LENGTH \<and>
                    accumulate_bitmap w 0 \<in> match_letter_sets x}"
proof -
  from built have wf: "index_wf idx" by (rule build_index_wf)
  from x obtain i j ka kb kc
    where lt: "i < j" "j < ka" "ka < kb" "kb < kc" "kc < number_of_words idx"
      and xe: "x = match_words (unique_words idx) i j ka kb kc"
    unfolding search_def in_search_loops [OF wf] by blast
  from lt have bound: "i < number_of_words idx" "j < number_of_words idx"
    "ka < number_of_words idx" "kb < number_of_words idx" "kc < number_of_words idx"
    by simp_all
  have ok: "w \<in> set word_list \<and> length w = WORD_LENGTH" if "w \<in> set x" for w
  proof -
    from that xe obtain k where "k < number_of_words idx" "w = unique_words idx ! k"
      using bound by (auto simp: match_words_def)
    with index_encodes [OF built, of k] show ?thesis by (simp add: encodes_def)
  qed
  show ?thesis
  proof (intro set_eqI iffI)
    fix w assume "w \<in> set x"
    with ok [of w] show "w \<in> {w \<in> set word_list. length w = WORD_LENGTH \<and>
                    accumulate_bitmap w 0 \<in> match_letter_sets x}"
      by (simp add: match_letter_sets_def)
  next
    fix w assume "w \<in> {w \<in> set word_list. length w = WORD_LENGTH \<and>
                    accumulate_bitmap w 0 \<in> match_letter_sets x}"
    then obtain w' where w: "w \<in> set word_list" "length w = WORD_LENGTH"
      and w': "w' \<in> set x" "accumulate_bitmap w 0 = accumulate_bitmap w' 0"
      by (auto simp: match_letter_sets_def)
    with ok [of w'] inj have "w = w'" by (auto dest: inj_onD)
    with w' show "w \<in> set x" by simp
  qed
qed

subsection \<open>The sizes fit\<close>

text \<open>
  Line 138 sums the list sizes in an \<open>int\<close>. No bitmap is stored twice and each has five
  bits set, so the number of words is at most the number of such bitmaps, far below
  \<open>2^31\<close>: the sum does not overflow, and sizes are modelled as natural numbers.
\<close>

lemma five_bit_bitmaps: "card {m :: u32. bitcount m = 5} \<le> 201376"
proof -
  let ?f = "\<lambda>m :: u32. {n. bit m n}"
  have "inj ?f"
  proof (rule injI)
    fix a b :: u32 assume "{n. bit a n} = {n. bit b n}"
    then have "bit a n = bit b n" for n by blast
    then show "a = b" by (rule bit_eqI)
  qed
  then have "card {m :: u32. bitcount m = 5} = card (?f ` {m :: u32. bitcount m = 5})"
    by (metis card_image inj_on_subset subset_UNIV)
  also have "\<dots> \<le> card {B. B \<subseteq> {0..<32::nat} \<and> card B = 5}"
  proof (rule card_mono)
    show "finite {B. B \<subseteq> {0..<32::nat} \<and> card B = 5}" by simp
    show "?f ` {m :: u32. bitcount m = 5} \<subseteq> {B. B \<subseteq> {0..<32::nat} \<and> card B = 5}"
      by (auto simp: bitcount_card dest: bit_imp_le_length)
  qed
  also have "\<dots> = 32 choose 5"
    using n_subsets [of "{0..<32::nat}" 5] by simp
  also have "\<dots> = 201376"
    by (simp add: binomial_fact' fact_numeral)
  finally show ?thesis .
qed

lemma number_of_words_bound:
  assumes "build_index word_list = Inr idx"
  shows "number_of_words idx \<le> 201376"
proof -
  have "set (word_bitmaps idx) \<subseteq> {m. bitcount m = 5}"
    unfolding index_bitmaps [OF assms] by (auto simp: WORD_LENGTH_def)
  then have "card (set (word_bitmaps idx)) \<le> card {m :: u32. bitcount m = 5}"
    by (intro card_mono) simp_all
  with five_bit_bitmaps show ?thesis
    using index_distinct [OF assms] build_index_wf [OF assms]
    by (simp add: distinct_card index_wf_def)
qed

section \<open>The claims\<close>

text \<open>
  C1. The claim is that a word of five different lowercase letters always lands in one
  list: that of its first pivot letter, or the last list when it has no pivot letter.
  The entry the program keeps for the last list is \<open>0xffff\<close>, the letters \<open>a\<close> to \<open>p\<close>
  only. The word \<open>vwxyz\<close> has length 5 and five bits set, the loop over the letter lists
  stops nowhere for it, and the array built from it is empty.
\<close>

theorem catch_all_misses_word:
  "length ''vwxyz'' = WORD_LENGTH \<and>
   accumulate_bitmap ''vwxyz'' 0 = Inr 65011712 \<and>
   bitcount 65011712 = WORD_LENGTH \<and>
   list_of 65011712 = None \<and>
   build_index [''vwxyz''] =
     Inr \<lparr>word_bitmaps = [], unique_words = [],
          word_bitmaps_boundaries = [0, 0, 0, 0, 0, 0, 0, 0, 0, 0, 0, 0, 0, 0],
          number_of_words = 0\<rparr>"
  by code_simp

text \<open>
  C2. For every search index built from a word list, the pruned search (pair loop,
  section pruning by pivot letter, early exit below three candidates, triple loop with
  running bitmaps) yields the same set of matches as the brute-force scan over all index
  tuples \<open>i < j < a < b < c\<close> that keeps those with pairwise disjoint bitmaps. This holds
  for the word tuples the program pushes and for the index tuples behind them.
\<close>

theorem search_equals_brute_force:
  "build_index word_list = Inr idx \<Longrightarrow>
     set (search idx) = set (brute_force (match_words (unique_words idx)) idx) \<and>
     set (search_indices idx) = set (brute_force index_tuple idx)"
proof -
  assume "build_index word_list = Inr idx"
  then have wf: "index_wf idx" by (rule build_index_wf)
  show ?thesis
    unfolding search_def search_indices_def
    by (intro conjI set_eqI) (simp_all only: in_search_loops [OF wf] in_brute_force)
qed

theorem search_equals_brute_force_witness:
  "build_index example_words = Inr example_index \<and>
   search example_index = [[''vibex'', ''waltz'', ''fjord'', ''nymph'', ''gucks'']] \<and>
   set (search example_index) =
     set (brute_force (match_words (unique_words example_index)) example_index) \<and>
   set (search_indices example_index) = set (brute_force index_tuple example_index)"
  using example_built example_search search_equals_brute_force [OF example_built]
  by (intro conjI) simp_all

text \<open>
  C3. Every match pushed is made of the words at five indices of the array whose
  bitmaps are pairwise disjoint, and the bitwise OR of the five bitmaps has exactly 25
  bits set.
\<close>

theorem match_bitmaps_disjoint:
  assumes "build_index word_list = Inr idx" and "x \<in> set (search idx)"
  shows "\<exists>i j ka kb kc.
     x = [unique_words idx ! i, unique_words idx ! j, unique_words idx ! ka,
          unique_words idx ! kb, unique_words idx ! kc] \<and>
     [i, j, ka, kb, kc] \<in> set (search_indices idx) \<and>
     kc < number_of_words idx \<and>
     disjoint5 (word_bitmaps idx ! i) (word_bitmaps idx ! j) (word_bitmaps idx ! ka)
       (word_bitmaps idx ! kb) (word_bitmaps idx ! kc) \<and>
     bitcount (word_bitmaps idx ! i OR word_bitmaps idx ! j OR word_bitmaps idx ! ka OR
       word_bitmaps idx ! kb OR word_bitmaps idx ! kc) = 25"
proof -
  from assms(1) have wf: "index_wf idx" by (rule build_index_wf)
  let ?m = "\<lambda>k. word_bitmaps idx ! k"
  from assms(2) obtain i j ka kb kc
    where lt: "i < j" "j < ka" "ka < kb" "kb < kc" "kc < number_of_words idx"
      and dis: "disjoint5 (?m i) (?m j) (?m ka) (?m kb) (?m kc)"
      and x: "x = match_words (unique_words idx) i j ka kb kc"
    unfolding search_def in_search_loops [OF wf] by blast
  from lt dis have "index_tuple i j ka kb kc \<in> set (search_indices idx)"
    unfolding search_indices_def in_search_loops [OF wf] by blast
  then have trace: "[i, j, ka, kb, kc] \<in> set (search_indices idx)"
    by (simp add: index_tuple_def)
  from lt have "i < number_of_words idx" "j < number_of_words idx" "ka < number_of_words idx"
    "kb < number_of_words idx" by simp_all
  with lt(5) have five: "bitcount (?m i) = 5" "bitcount (?m j) = 5" "bitcount (?m ka) = 5"
    "bitcount (?m kb) = 5" "bitcount (?m kc) = 5"
    using index_entry(1) [OF assms(1)] by (simp_all add: WORD_LENGTH_def)
  from dis have d4: "?m kb AND ?m kc = 0"
    and d3: "?m ka AND (?m kb OR ?m kc) = 0"
    and d2: "?m j AND (?m ka OR ?m kb OR ?m kc) = 0"
    and d1: "?m i AND (?m j OR ?m ka OR ?m kb OR ?m kc) = 0"
    by (simp_all add: disjoint5_def and_or_zero)
  have "bitcount (?m i OR ?m j OR ?m ka OR ?m kb OR ?m kc) = 25"
    by (simp add: bitcount_or [OF d1] bitcount_or [OF d2] bitcount_or [OF d3]
        bitcount_or [OF d4] five)
  with x trace lt(5) dis show ?thesis
    unfolding match_words_def by blast
qed

theorem match_bitmaps_disjoint_witness:
  "\<exists>i j ka kb kc.
     [''vibex'', ''waltz'', ''fjord'', ''nymph'', ''gucks''] =
       [unique_words example_index ! i, unique_words example_index ! j,
        unique_words example_index ! ka, unique_words example_index ! kb,
        unique_words example_index ! kc] \<and>
     [i, j, ka, kb, kc] \<in> set (search_indices example_index) \<and>
     kc < number_of_words example_index \<and>
     disjoint5 (word_bitmaps example_index ! i) (word_bitmaps example_index ! j)
       (word_bitmaps example_index ! ka) (word_bitmaps example_index ! kb)
       (word_bitmaps example_index ! kc) \<and>
     bitcount (word_bitmaps example_index ! i OR word_bitmaps example_index ! j OR
       word_bitmaps example_index ! ka OR word_bitmaps example_index ! kb OR
       word_bitmaps example_index ! kc) = 25"
proof -
  have "[''vibex'', ''waltz'', ''fjord'', ''nymph'', ''gucks''] \<in> set (search example_index)"
    by (simp add: example_search)
  from match_bitmaps_disjoint [OF example_built this] show ?thesis .
qed

text \<open>
  C4. The five indices behind every match are strictly increasing and below the number
  of words; so no index occurs twice in a match, two matches over the same set of
  indices are the same match, and no index tuple is pushed twice. The matches are these
  index tuples read in the word array, in the same order.
\<close>

theorem match_indices_increasing:
  assumes "build_index word_list = Inr idx" and "t \<in> set (search_indices idx)"
  shows "length t = 5 \<and> sorted_wrt (<) t \<and> (\<forall>k\<in>set t. k < number_of_words idx) \<and>
     distinct t \<and>
     (\<forall>t'\<in>set (search_indices idx). set t' = set t \<longrightarrow> t' = t) \<and>
     distinct (search_indices idx) \<and>
     search idx = map (map ((!) (unique_words idx))) (search_indices idx)"
proof -
  from assms(1) have wf: "index_wf idx" by (rule build_index_wf)
  have rising: "length s = 5 \<and> sorted_wrt (<) s \<and> (\<forall>k\<in>set s. k < number_of_words idx)"
    if "s \<in> set (search_indices idx)" for s
  proof -
    from that obtain i j ka kb kc
      where "i < j" "j < ka" "ka < kb" "kb < kc" "kc < number_of_words idx"
        and "s = index_tuple i j ka kb kc"
      unfolding search_indices_def in_search_loops [OF wf] by blast
    then show ?thesis by (auto simp: index_tuple_def)
  qed
  from rising [OF assms(2)] have t: "length t = 5" "sorted_wrt (<) t"
    "\<forall>k\<in>set t. k < number_of_words idx" by simp_all
  from t(2) have "distinct t" by (simp add: strict_sorted_iff)
  moreover have "\<forall>t'\<in>set (search_indices idx). set t' = set t \<longrightarrow> t' = t"
  proof (intro ballI impI)
    fix t' assume "t' \<in> set (search_indices idx)" and same: "set t' = set t"
    then have "sorted_wrt (<) t'" using rising [of t'] by blast
    from strict_sorted_equal [OF t(2) this same] show "t' = t" .
  qed
  moreover note t distinct_search_indices [OF wf] search_trace [of idx]
  ultimately show ?thesis by blast
qed

theorem match_indices_increasing_witness:
  "[0, 1, 2, 3, 4] \<in> set (search_indices example_index) \<and>
   sorted_wrt (<) [0, 1, 2, 3, 4 :: nat] \<and>
   distinct (search_indices example_index) \<and>
   search example_index =
     map (map ((!) (unique_words example_index))) (search_indices example_index)"
proof -
  have t: "[0, 1, 2, 3, 4] \<in> set (search_indices example_index)"
    by (simp add: example_search_indices)
  have "sorted_wrt (<) [0, 1, 2, 3, 4 :: nat]" by simp
  with match_indices_increasing [OF example_built t] t show ?thesis by blast
qed

text \<open>
  C5. The claim is that the character range is checked before the shift. The program
  has no such check: \<open>AUDIO\<close> has length 5 and its first character gives the shift
  amount \<open>-32\<close>, which the run reaches.
\<close>

theorem unchecked_shift_counterexample:
  "length ''AUDIO'' = WORD_LENGTH \<and>
   shift_amount CHR ''A'' = - 32 \<and>
   process_word ''AUDIO'' empty_buckets = Inl (Undefined_shift (- 32)) \<and>
   run [''AUDIO''] = Inl (Undefined_shift (- 32))"
  by (rule audio_undefined)

text \<open>
  C5, as the program has it. The encoder checks nothing. A word of length 5 is encoded
  without an undefined shift exactly when each of its characters has a code from 97
  (\<open>a\<close>) to 127; otherwise the step fails at the first character outside that range,
  with the negative amount \<open>c - 'a'\<close> of that character. Words of other lengths are
  never encoded. When all characters are lowercase letters every shift amount lies
  between 0 and 25.
\<close>

theorem shift_amounts_of_words:
  "((\<exists>s. process_word w st = Inl (Undefined_shift s)) \<longleftrightarrow>
      length w = WORD_LENGTH \<and> (\<exists>c\<in>set w. \<not> (97 \<le> (of_char c :: nat) \<and> (of_char c :: nat) < 128))) \<and>
   (process_word w st = Inl (Undefined_shift s) \<longrightarrow>
      s < 0 \<and> (\<exists>pre c post. w = pre @ c # post \<and> s = shift_amount c \<and>
        (\<forall>c'\<in>set pre. 0 \<le> shift_amount c' \<and> shift_amount c' < 32))) \<and>
   ((\<forall>c\<in>set w. 97 \<le> (of_char c :: nat) \<and> (of_char c :: nat) \<le> 122) \<longrightarrow>
      (\<forall>c\<in>set w. 0 \<le> shift_amount c \<and> shift_amount c \<le> 25) \<and>
      (\<exists>st'. process_word w st = Inr st'))"
proof (intro conjI impI)
  have range: "0 \<le> shift_amount c \<longleftrightarrow> 97 \<le> (of_char c :: nat) \<and> (of_char c :: nat) < 128" for c
    using shift_amount_range [of c] shift_amount_upper [of c] by simp
  have undefined_iff: "(\<exists>e. process_word w st = Inl e) \<longleftrightarrow>
      length w = WORD_LENGTH \<and> \<not> (\<exists>m. accumulate_bitmap w 0 = Inr m)"
    by (cases "accumulate_bitmap w 0") (auto simp: process_word_def)
  have "(\<exists>s. process_word w st = Inl (Undefined_shift s)) \<longleftrightarrow> (\<exists>e. process_word w st = Inl e)"
    by (metis error.exhaust)
  then show "(\<exists>s. process_word w st = Inl (Undefined_shift s)) \<longleftrightarrow>
      length w = WORD_LENGTH \<and> (\<exists>c\<in>set w. \<not> (97 \<le> (of_char c :: nat) \<and> (of_char c :: nat) < 128))"
    unfolding undefined_iff accumulate_bitmap_defined range by blast
  show "s < 0" if "process_word w st = Inl (Undefined_shift s)"
  proof -
    from that have "accumulate_bitmap w 0 = Inl (Undefined_shift s)"
      by (auto simp: process_word_def split: if_splits sum.splits)
    then show ?thesis unfolding accumulate_bitmap_Inl by auto
  qed
  show "\<exists>pre c post. w = pre @ c # post \<and> s = shift_amount c \<and>
        (\<forall>c'\<in>set pre. 0 \<le> shift_amount c' \<and> shift_amount c' < 32)"
    if "process_word w st = Inl (Undefined_shift s)"
  proof -
    from that have "accumulate_bitmap w 0 = Inl (Undefined_shift s)"
      by (auto simp: process_word_def split: if_splits sum.splits)
    then obtain pre c post where "w = pre @ c # post" "\<forall>c'\<in>set pre. 0 \<le> shift_amount c'"
      "s = shift_amount c"
      unfolding accumulate_bitmap_Inl by auto
    then show ?thesis using shift_amount_upper by blast
  qed
  assume lower: "\<forall>c\<in>set w. 97 \<le> (of_char c :: nat) \<and> (of_char c :: nat) \<le> 122"
  show "\<forall>c\<in>set w. 0 \<le> shift_amount c \<and> shift_amount c \<le> 25"
  proof
    fix c assume "c \<in> set w"
    with lower have "97 \<le> (of_char c :: nat)" "(of_char c :: nat) \<le> 122" by simp_all
    then show "0 \<le> shift_amount c \<and> shift_amount c \<le> 25"
      unfolding shift_amount_def char_int_a char_int_def
      by (simp del: of_nat_of_char)
  qed
  then have "\<exists>m. accumulate_bitmap w 0 = Inr m"
    unfolding accumulate_bitmap_defined by blast
  then show "\<exists>st'. process_word w st = Inr st'"
    by (auto simp: process_word_def)
qed

theorem shift_amounts_of_words_witness:
  "(\<exists>s. process_word ''AUDIO'' empty_buckets = Inl (Undefined_shift s)) \<and>
   (- 32 :: int) < 0 \<and>
   (\<exists>pre c post. ''AUDIO'' = pre @ c # post \<and> - 32 = shift_amount c) \<and>
   shift_amount CHR ''f'' \<le> 25 \<and>
   (\<exists>st'. process_word ''fjord'' empty_buckets = Inr st')"
proof -
  have bad: "length ''AUDIO'' = WORD_LENGTH \<and>
      (\<exists>c\<in>set ''AUDIO''. \<not> (97 \<le> (of_char c :: nat) \<and> (of_char c :: nat) < 128))"
    by (simp add: WORD_LENGTH_def)
  have run: "process_word ''AUDIO'' empty_buckets = Inl (Undefined_shift (- 32))"
    using audio_undefined by blast
  have lower: "\<forall>c\<in>set ''fjord''. 97 \<le> (of_char c :: nat) \<and> (of_char c :: nat) \<le> 122"
    by simp
  have f: "CHR ''f'' \<in> set ''fjord''" by simp
  from shift_amounts_of_words [of "''AUDIO''" empty_buckets "- 32"] bad run
  have "(\<exists>s. process_word ''AUDIO'' empty_buckets = Inl (Undefined_shift s))"
    and "(- 32 :: int) < 0"
    and "\<exists>pre c post. ''AUDIO'' = pre @ c # post \<and> - 32 = shift_amount c"
    by blast+
  moreover from shift_amounts_of_words [of "''fjord''" empty_buckets 0] lower f
  have "shift_amount CHR ''f'' \<le> 25" and "\<exists>st'. process_word ''fjord'' empty_buckets = Inr st'"
    by blast+
  ultimately show ?thesis by blast
qed

text \<open>
  C6. A word whose length is not 5, or whose bitmap does not have exactly five bits set,
  is passed over without an error and leaves the letter lists as they were; it is not
  among the words of the array. Every word of the array has length 5, and its bitmap,
  the one stored beside it, has exactly five bits set.
\<close>

theorem only_five_distinct_letters:
  assumes "build_index word_list = Inr idx"
  shows "(\<forall>k<number_of_words idx.
        length (unique_words idx ! k) = WORD_LENGTH \<and>
        accumulate_bitmap (unique_words idx ! k) 0 = Inr (word_bitmaps idx ! k) \<and>
        bitcount (word_bitmaps idx ! k) = WORD_LENGTH) \<and>
     (\<forall>w m. length w \<noteq> WORD_LENGTH \<or>
        (accumulate_bitmap w 0 = Inr m \<and> bitcount m \<noteq> WORD_LENGTH)
        \<longrightarrow> w \<notin> set (unique_words idx) \<and> (\<forall>st. process_word w st = Inr st))"
proof -
  from assms have wf: "index_wf idx" by (rule build_index_wf)
  have entry: "length (unique_words idx ! k) = WORD_LENGTH \<and>
        accumulate_bitmap (unique_words idx ! k) 0 = Inr (word_bitmaps idx ! k) \<and>
        bitcount (word_bitmaps idx ! k) = WORD_LENGTH" if "k < number_of_words idx" for k
    using index_encodes(1) [OF assms that] index_entry(1) [OF assms that]
    by (simp add: encodes_def)
  have "w \<notin> set (unique_words idx) \<and> (\<forall>st. process_word w st = Inr st)"
    if rej: "length w \<noteq> WORD_LENGTH \<or>
        (accumulate_bitmap w 0 = Inr m \<and> bitcount m \<noteq> WORD_LENGTH)" for w m
  proof
    show "w \<notin> set (unique_words idx)"
    proof
      assume "w \<in> set (unique_words idx)"
      then obtain k where "k < length (unique_words idx)" "unique_words idx ! k = w"
        by (auto simp: in_set_conv_nth)
      with wf entry [of k] rej show False by (auto simp: index_wf_def)
    qed
    from rej show "\<forall>st. process_word w st = Inr st"
      by (auto simp: process_word_def)
  qed
  with entry show ?thesis by blast
qed

theorem only_five_distinct_letters_witness:
  "''hello'' \<in> set example_words \<and> ''hello'' \<notin> set (unique_words example_index) \<and>
   process_word ''hello'' empty_buckets = Inr empty_buckets \<and>
   ''word'' \<in> set example_words \<and> ''word'' \<notin> set (unique_words example_index) \<and>
   process_word ''word'' empty_buckets = Inr empty_buckets \<and>
   length (unique_words example_index ! 0) = WORD_LENGTH \<and>
   bitcount (word_bitmaps example_index ! 0) = WORD_LENGTH"
proof -
  note inst = only_five_distinct_letters [OF example_built]
  have "(0::nat) < number_of_words example_index" by (simp add: example_index_def)
  with inst have first: "length (unique_words example_index ! 0) = WORD_LENGTH \<and>
      bitcount (word_bitmaps example_index ! 0) = WORD_LENGTH" by blast
  have "accumulate_bitmap ''hello'' 0 = Inr 18576 \<and> bitcount 18576 \<noteq> WORD_LENGTH"
    using hello_encoding by (simp add: WORD_LENGTH_def)
  with inst have hello: "''hello'' \<notin> set (unique_words example_index) \<and>
      process_word ''hello'' empty_buckets = Inr empty_buckets" by blast
  have "length ''word'' \<noteq> WORD_LENGTH" by (simp add: WORD_LENGTH_def)
  with inst have word: "''word'' \<notin> set (unique_words example_index) \<and>
      process_word ''word'' empty_buckets = Inr empty_buckets" by blast
  have "''hello'' \<in> set example_words" "''word'' \<in> set example_words"
    by (simp_all add: example_words_def)
  with first hello word show ?thesis by blast
qed

text \<open>
  C7. No bitmap occurs twice in the array; the word stored beside a bitmap is the first
  word of the input, in input order, that has length 5 and is encoded to that bitmap;
  and within every section of the array the words stand in the order of the input.
\<close>

theorem first_seen_word_kept:
  assumes "build_index word_list = Inr idx"
  shows "distinct (word_bitmaps idx) \<and>
     (\<forall>k<number_of_words idx.
        find (\<lambda>w. length w = WORD_LENGTH \<and> accumulate_bitmap w 0 = Inr (word_bitmaps idx ! k))
          word_list = Some (unique_words idx ! k)) \<and>
     (\<forall>i<13. subseq
        (take (word_bitmaps_boundaries idx ! Suc i - word_bitmaps_boundaries idx ! i)
           (drop (word_bitmaps_boundaries idx ! i) (unique_words idx))) word_list)"
  using index_distinct [OF assms] index_entry(2) [OF assms] index_section_words [OF assms]
  unfolding encodes_def by blast

theorem first_seen_word_kept_witness:
  "distinct (word_bitmaps example_index) \<and>
   find (\<lambda>w. length w = WORD_LENGTH \<and>
          accumulate_bitmap w 0 = Inr (word_bitmaps example_index ! 4)) example_words
     = Some ''gucks'' \<and>
   ''gucsk'' \<in> set example_words \<and>
   subseq [''gucks''] example_words"
proof -
  note inst = first_seen_word_kept [OF example_built]
  have "(4::nat) < number_of_words example_index" by (simp add: example_index_def)
  with inst have "find (\<lambda>w. length w = WORD_LENGTH \<and>
          accumulate_bitmap w 0 = Inr (word_bitmaps example_index ! 4)) example_words
     = Some (unique_words example_index ! 4)" by blast
  moreover have "unique_words example_index ! 4 = ''gucks''"
    by (simp add: example_index_def)
  ultimately have kept: "find (\<lambda>w. length w = WORD_LENGTH \<and>
          accumulate_bitmap w 0 = Inr (word_bitmaps example_index ! 4)) example_words
     = Some ''gucks''" by (simp only:)
  have "(6::nat) < 13" by simp
  with inst have "subseq
        (take (word_bitmaps_boundaries example_index ! Suc 6 -
               word_bitmaps_boundaries example_index ! 6)
           (drop (word_bitmaps_boundaries example_index ! 6) (unique_words example_index)))
        example_words" by blast
  moreover have "take (word_bitmaps_boundaries example_index ! Suc 6 -
               word_bitmaps_boundaries example_index ! 6)
           (drop (word_bitmaps_boundaries example_index ! 6) (unique_words example_index))
         = [''gucks'']"
    by (simp add: example_index_def)
  ultimately have sec: "subseq [''gucks''] example_words" by (simp only:)
  have "''gucsk'' \<in> set example_words" by (simp add: example_words_def)
  with inst kept sec show ?thesis by blast
qed

text \<open>
  C8. The claim is that a permuted input gives the same set of 5-tuples of words. It does
  not: of two input words with the same letters the first one is kept, so moving
  \<open>gucsk\<close> before \<open>gucks\<close> changes the word of the match; and two words of one letter
  list stand in a match in their input order, so exchanging \<open>bcfgj\<close> and \<open>kmpqv\<close>
  changes the order inside the tuple.
\<close>

theorem permuted_input_counterexample:
  "mset example_words_permuted = mset example_words \<and>
   run example_words = Inr [[''vibex'', ''waltz'', ''fjord'', ''nymph'', ''gucks'']] \<and>
   run example_words_permuted = Inr [[''vibex'', ''waltz'', ''fjord'', ''nymph'', ''gucsk'']] \<and>
   set [[''vibex'', ''waltz'', ''fjord'', ''nymph'', ''gucks'']] \<noteq>
     set [[''vibex'', ''waltz'', ''fjord'', ''nymph'', ''gucsk'']] \<and>
   mset swap_words_permuted = mset swap_words \<and>
   run swap_words = Inr [[''wxyze'', ''norst'', ''adhil'', ''bcfgj'', ''kmpqv'']] \<and>
   run swap_words_permuted = Inr [[''wxyze'', ''norst'', ''adhil'', ''kmpqv'', ''bcfgj'']] \<and>
   set [[''wxyze'', ''norst'', ''adhil'', ''bcfgj'', ''kmpqv'']] \<noteq>
     set [[''wxyze'', ''norst'', ''adhil'', ''kmpqv'', ''bcfgj'']]"
proof -
  have p1: "mset example_words_permuted = mset example_words"
    by (simp add: example_words_permuted_def example_words_def)
  have p2: "mset swap_words_permuted = mset swap_words"
    by (simp add: swap_words_permuted_def swap_words_def)
  have d1: "set [[''vibex'', ''waltz'', ''fjord'', ''nymph'', ''gucks'']] \<noteq>
     set [[''vibex'', ''waltz'', ''fjord'', ''nymph'', ''gucsk'']]" by simp
  have d2: "set [[''wxyze'', ''norst'', ''adhil'', ''bcfgj'', ''kmpqv'']] \<noteq>
     set [[''wxyze'', ''norst'', ''adhil'', ''kmpqv'', ''bcfgj'']]" by simp
  show ?thesis
    by (intro conjI) (fact p1 example_run example_permuted_run d1 p2 swap_run
      swap_permuted_run d2)+
qed

text \<open>
  C8, as the program has it. When the run on a word list is defined, the run on every
  permutation of the list is defined too, and the two runs give the same set of matches
  once each match is read as the set of the letter sets of its five words. When no two
  different input words of length five have the same letters, the two runs also give the
  same sets of five words.
\<close>

theorem permuted_input_same_letter_sets:
  assumes "mset word_list' = mset word_list" and "run word_list = Inr matches"
  shows "\<exists>matches'. run word_list' = Inr matches' \<and>
     match_letter_sets ` set matches' = match_letter_sets ` set matches \<and>
     (inj_on (\<lambda>w. accumulate_bitmap w 0) {w \<in> set word_list. length w = WORD_LENGTH}
        \<longrightarrow> set ` set matches' = set ` set matches)"
proof -
  from assms(1) have same: "set word_list' = set word_list" by (rule mset_eq_setD)
  from assms(2) obtain idx where built: "build_index word_list = Inr idx"
    and m: "matches = search idx"
    by (auto simp: run_def split: sum.splits)
  from same_words_same_bitmaps [OF same built] obtain idx'
    where built': "build_index word_list' = Inr idx'"
      and bitmaps: "set (word_bitmaps idx') = set (word_bitmaps idx)" by blast
  have r': "run word_list' = Inr (search idx')" by (simp add: run_def built')
  have sets: "match_letter_sets ` set (search idx') = match_letter_sets ` set (search idx)"
    by (simp only: search_letter_sets [OF built] search_letter_sets [OF built'] bitmaps)
  have "set ` set (search idx') = set ` set (search idx)"
    if inj: "inj_on (\<lambda>w. accumulate_bitmap w 0) {w \<in> set word_list. length w = WORD_LENGTH}"
  proof -
    let ?F = "\<lambda>L. {w \<in> set word_list. length w = WORD_LENGTH \<and> accumulate_bitmap w 0 \<in> L}"
    from inj have inj': "inj_on (\<lambda>w. accumulate_bitmap w 0)
        {w \<in> set word_list'. length w = WORD_LENGTH}" by (simp only: same)
    have "set x = ?F (match_letter_sets x)" if "x \<in> set (search idx)" for x
      by (rule match_words_of_letter_sets [OF built inj that])
    then have a: "set ` set (search idx) = ?F ` match_letter_sets ` set (search idx)"
      by (force simp: image_iff)
    have "set x = ?F (match_letter_sets x)" if "x \<in> set (search idx')" for x
      using match_words_of_letter_sets [OF built' inj' that] by (simp only: same)
    then have b: "set ` set (search idx') = ?F ` match_letter_sets ` set (search idx')"
      by (force simp: image_iff)
    from a b sets show ?thesis by simp
  qed
  with r' sets m show ?thesis by blast
qed

theorem permuted_input_same_letter_sets_witness:
  "(\<exists>matches'. run example_words_permuted = Inr matches' \<and>
      match_letter_sets ` set matches' =
        match_letter_sets ` set [[''vibex'', ''waltz'', ''fjord'', ''nymph'', ''gucks'']]) \<and>
   (\<exists>matches'. run swap_words_permuted = Inr matches' \<and>
      set ` set matches' = set ` set [[''wxyze'', ''norst'', ''adhil'', ''bcfgj'', ''kmpqv'']])"
proof -
  have p1: "mset example_words_permuted = mset example_words"
    by (simp add: example_words_permuted_def example_words_def)
  have p2: "mset swap_words_permuted = mset swap_words"
    by (simp add: swap_words_permuted_def swap_words_def)
  have "{w \<in> set swap_words. length w = WORD_LENGTH} \<subseteq> set swap_words" by blast
  moreover have "inj_on (\<lambda>w. accumulate_bitmap w 0) (set swap_words)"
    using swap_encodings_distinct by (simp only: distinct_map)
  ultimately have inj: "inj_on (\<lambda>w. accumulate_bitmap w 0)
      {w \<in> set swap_words. length w = WORD_LENGTH}"
    by (rule inj_on_subset [rotated])
  from permuted_input_same_letter_sets [OF p1 example_run]
  obtain m1 where m1: "run example_words_permuted = Inr m1 \<and>
      match_letter_sets ` set m1 =
        match_letter_sets ` set [[''vibex'', ''waltz'', ''fjord'', ''nymph'', ''gucks'']]"
    by (elim exE conjE) (rule that, rule conjI)
  from permuted_input_same_letter_sets [OF p2 swap_run]
  obtain m2 where m2: "run swap_words_permuted = Inr m2"
    and imp: "inj_on (\<lambda>w. accumulate_bitmap w 0) {w \<in> set swap_words. length w = WORD_LENGTH}
        \<longrightarrow> set ` set m2 = set ` set [[''wxyze'', ''norst'', ''adhil'', ''bcfgj'', ''kmpqv'']]"
    by (elim exE conjE) (rule that)
  from imp inj have "set ` set m2 =
      set ` set [[''wxyze'', ''norst'', ''adhil'', ''bcfgj'', ''kmpqv'']]" by (rule mp)
  with m2 have m2': "run swap_words_permuted = Inr m2 \<and> set ` set m2 =
      set ` set [[''wxyze'', ''norst'', ''adhil'', ''bcfgj'', ''kmpqv'']]" by (rule conjI)
  show ?thesis
    by (rule conjI) (rule exI, fact m1, rule exI, fact m2')
qed

text \<open>
  C9. The run on the four words \<open>nymph fjord waltz glyph\<close> ends without an error and
  with no match, and so does the run on no words. In general, an array with fewer than
  five words, and so every input with fewer than five words, gives no match.
\<close>

theorem tiny_corpus_no_match:
  "run [''nymph'', ''fjord'', ''waltz'', ''glyph''] = Inr [] \<and>
   run [] = Inr [] \<and>
   (\<forall>word_list idx.
      build_index word_list = Inr idx \<and> (length word_list < 5 \<or> number_of_words idx < 5)
      \<longrightarrow> search idx = [] \<and> run word_list = Inr [])"
proof -
  have general: "search idx = [] \<and> run word_list = Inr []"
    if "build_index word_list = Inr idx \<and> (length word_list < 5 \<or> number_of_words idx < 5)"
    for word_list idx
  proof -
    from that have built: "build_index word_list = Inr idx" by simp
    from that number_of_words_le [OF built] have "number_of_words idx < 5" by auto
    from few_words_no_match [OF built this] built show ?thesis by (simp add: run_def)
  qed
  have "number_of_words tiny_index < 5" by (simp add: tiny_index_def)
  with general [of tiny_words tiny_index] tiny_built have "run tiny_words = Inr []" by blast
  then have four: "run [''nymph'', ''fjord'', ''waltz'', ''glyph''] = Inr []"
    by (simp only: tiny_words_def)
  from empty_built obtain idx0 where "build_index [] = Inr idx0" by blast
  with general [of "[]" idx0] have "run [] = Inr []" by simp
  with four general show ?thesis by blast
qed

theorem tiny_corpus_no_match_witness:
  "build_index tiny_words = Inr tiny_index \<and> length tiny_words < 5 \<and>
   number_of_words tiny_index < 5 \<and> search tiny_index = [] \<and> run tiny_words = Inr []"
proof -
  have "length tiny_words < 5" by (simp add: tiny_words_def)
  moreover have "number_of_words tiny_index < 5" by (simp add: tiny_index_def)
  ultimately show ?thesis using tiny_corpus_no_match tiny_built by blast
qed

text \<open>
  C10. The two arrays stay aligned: both have \<open>number_of_words\<close> entries, and the bitmap
  at every position is the encoding of the five-letter word at that position. Every match
  is the index tuple of the search read in the word array. The boundaries are
  non-decreasing, start at 0 and end with the number of words.
\<close>

theorem index_aligned:
  assumes "build_index word_list = Inr idx"
  shows "length (word_bitmaps idx) = number_of_words idx \<and>
     length (unique_words idx) = number_of_words idx \<and>
     (\<forall>k<number_of_words idx.
        length (unique_words idx ! k) = WORD_LENGTH \<and>
        accumulate_bitmap (unique_words idx ! k) 0 = Inr (word_bitmaps idx ! k)) \<and>
     search idx = map (map ((!) (unique_words idx))) (search_indices idx) \<and>
     sorted (word_bitmaps_boundaries idx) \<and>
     hd (word_bitmaps_boundaries idx) = 0 \<and>
     last (word_bitmaps_boundaries idx) = number_of_words idx"
proof -
  from assms have wf: "index_wf idx" by (rule build_index_wf)
  let ?b = "word_bitmaps_boundaries idx"
  from wf have len: "length ?b = 14" and b0: "?b ! 0 = 0" and b13: "?b ! 13 = number_of_words idx"
    and mono: "\<forall>i<13. ?b ! i \<le> ?b ! Suc i"
    by (simp_all add: index_wf_def)
  from len have ne: "?b \<noteq> []" by auto
  have "sorted ?b"
    unfolding sorted_iff_nth_Suc using mono len by simp
  moreover from ne b0 have "hd ?b = 0" by (simp add: hd_conv_nth)
  moreover from ne b13 len have "last ?b = number_of_words idx" by (simp add: last_conv_nth)
  moreover have "\<forall>k<number_of_words idx.
        length (unique_words idx ! k) = WORD_LENGTH \<and>
        accumulate_bitmap (unique_words idx ! k) 0 = Inr (word_bitmaps idx ! k)"
    using index_encodes(1) [OF assms] by (simp add: encodes_def)
  ultimately show ?thesis
    using wf search_trace [of idx] by (simp add: index_wf_def)
qed

theorem index_aligned_witness:
  "length (word_bitmaps example_index) = 5 \<and>
   length (unique_words example_index) = 5 \<and>
   accumulate_bitmap ''fjord'' 0 = Inr (word_bitmaps example_index ! 2) \<and>
   sorted (word_bitmaps_boundaries example_index) \<and>
   hd (word_bitmaps_boundaries example_index) = 0 \<and>
   last (word_bitmaps_boundaries example_index) = 5"
proof -
  have n: "number_of_words example_index = 5"
    and w: "unique_words example_index ! 2 = ''fjord''"
    by (simp_all add: example_index_def)
  note aligned = index_aligned [OF example_built, unfolded n]
  from aligned have "accumulate_bitmap (unique_words example_index ! 2) 0 =
      Inr (word_bitmaps example_index ! 2)"
    by simp
  then have "accumulate_bitmap ''fjord'' 0 = Inr (word_bitmaps example_index ! 2)"
    by (simp only: w)
  with aligned show ?thesis by blast
qed

end
